theory Spec2Isabelle
  imports Main "HOL-Library.Char_ord" "HOL-Library.List_Lexorder" "HOL-Library.AList"
begin

section \<open>The node store\<close>

text \<open>
  The JavaScript class \<open>Node\<close> has the fields \<open>start\<close>, \<open>end\<close>, \<open>children\<close>,
  \<open>suffixLink\<close> and \<open>suffixIndex\<close>. Nodes are objects with identity: the construction
  mutates \<open>nextNode.start\<close> and stores references to nodes in \<open>children\<close>,
  \<open>suffixLink\<close>, \<open>activeNode\<close> and \<open>lastCreatedNode\<close>. The model keeps all nodes in
  one store: a reference is an address (a natural number), \<open>nodes\<close> maps the
  addresses to the nodes, \<open>node_count\<close> is the number of nodes created so far and the
  address of the next one, and \<open>new Node\<close> stores the node at that address.

  \<open>end\<close> is a number for the root and for internal nodes and \<open>null\<close> for leaves
  (\<open>None\<close> here); \<open>children\<close> is an array of 27 entries, read and written at the index
  \<open>charToIndex\<close> computes. Reading a JavaScript array at an index that was never written
  gives \<open>undefined\<close>, writing there adds the entry, so the array is a partial map from
  integers; the traversals only visit the indices 0 to 26.
\<close>

datatype error = TypeError

record node =
  start :: int
  endv :: "int option"
  children :: "int \<Rightarrow> nat option"
  suffixLink :: "nat option"
  suffixIndex :: int

text \<open>One entry of \<open>steps\<close>; the message is kept as the two values it interpolates.\<close>

record step =
  message :: "char option \<times> int"
  snapshotRoot :: nat
  activeNodeStart :: int
  stepActiveEdge :: int
  stepActiveLength :: int
  remainder :: int

record suffix_tree =
  tree_text :: string
  nodes :: "nat \<Rightarrow> node"
  node_count :: nat
  root :: nat
  activeNode :: nat
  activeEdge :: int
  activeLength :: int
  remainingSuffixCount :: int
  leafEnd :: int
  lastCreatedNode :: "nat option"
  steps :: "step list"

definition new_Node :: "int \<Rightarrow> int option \<Rightarrow> node" where
  "new_Node s e =
     \<lparr>start = s, endv = e, children = (\<lambda>_. None), suffixLink = None, suffixIndex = - 1\<rparr>"

definition edgeLength :: "node \<Rightarrow> int \<Rightarrow> int" where
  "edgeLength n currentLeafEnd =
     (case endv n of Some e \<Rightarrow> e | None \<Rightarrow> currentLeafEnd) - start n + 1"

text \<open>\<open>s[k]\<close> on a JavaScript string: \<open>undefined\<close> (\<open>None\<close>) out of range.\<close>

definition charAt :: "string \<Rightarrow> int \<Rightarrow> char option" where
  "charAt s k = (if 0 \<le> k \<and> k < int (length s) then Some (s ! nat k) else None)"

text \<open>
  \<open>charToIndex\<close> on a character. On \<open>undefined\<close> the source's \<open>c.charCodeAt(0)\<close>
  throws a TypeError; the callers below model that where the argument can be undefined.
\<close>

definition charToIndex :: "char \<Rightarrow> int" where
  "charToIndex c = (if c = CHR ''$'' then 26 else of_char c - of_char (CHR ''A''))"

text \<open>\<open>String.prototype.substring\<close>: both bounds clamped to the string, swapped if needed.\<close>

definition substring :: "string \<Rightarrow> int \<Rightarrow> int \<Rightarrow> string" where
  "substring s a b =
     (let n = int (length s);
          a' = max 0 (min a n);
          b' = max 0 (min b n);
          lo = min a' b';
          hi = max a' b'
      in take (nat (hi - lo)) (drop (nat lo) s))"

definition node_at :: "suffix_tree \<Rightarrow> nat \<Rightarrow> node" where
  "node_at s v = nodes s v"

definition upd_node :: "nat \<Rightarrow> (node \<Rightarrow> node) \<Rightarrow> suffix_tree \<Rightarrow> suffix_tree" where
  "upd_node v f s = s\<lparr>nodes := (nodes s)(v := f (nodes s v))\<rparr>"

definition set_child :: "nat \<Rightarrow> int \<Rightarrow> nat \<Rightarrow> suffix_tree \<Rightarrow> suffix_tree" where
  "set_child v k c s = upd_node v (\<lambda>n. n\<lparr>children := (children n)(k \<mapsto> c)\<rparr>) s"

definition alloc :: "node \<Rightarrow> suffix_tree \<Rightarrow> suffix_tree" where
  "alloc n s = s\<lparr>nodes := (nodes s)(node_count s := n), node_count := node_count s + 1\<rparr>"

section \<open>Construction\<close>

text \<open>
  One iteration of the \<open>while\<close> loop of \<open>extendSuffixTree\<close>. \<open>Continue\<close> is reaching
  the end of the body or the \<open>continue\<close> after \<open>walkDown\<close>, \<open>Break\<close> is the
  \<open>break\<close> of rule 3, \<open>Throw\<close> an exception.
\<close>

datatype outcome = Continue suffix_tree | Break suffix_tree | Throw error

text \<open>The tail of the loop body: the count goes down and the active point moves.\<close>

definition setActivePoint :: "int \<Rightarrow> suffix_tree \<Rightarrow> suffix_tree" where
  "setActivePoint pos s0 =
     (let s = s0\<lparr>remainingSuffixCount := remainingSuffixCount s0 - 1\<rparr> in
      if activeNode s = root s \<and> activeLength s > 0 then
        s\<lparr>activeLength := activeLength s - 1,
          activeEdge := pos - remainingSuffixCount s + 1\<rparr>
      else if activeNode s \<noteq> root s then
        s\<lparr>activeNode := (case suffixLink (node_at s (activeNode s)) of
                           Some l \<Rightarrow> l | None \<Rightarrow> root s)\<rparr>
      else s)"

text \<open>Rule 2 without a split: a new leaf under the active node.\<close>

definition newLeaf :: "int \<Rightarrow> int \<Rightarrow> suffix_tree \<Rightarrow> suffix_tree" where
  "newLeaf pos edgeIndex s =
     (let leaf = node_count s;
          s1 = set_child (activeNode s) edgeIndex leaf (alloc (new_Node pos None) s)
      in case lastCreatedNode s1 of
           Some lc \<Rightarrow>
             (upd_node lc (\<lambda>n. n\<lparr>suffixLink := Some (activeNode s1)\<rparr>) s1)
               \<lparr>lastCreatedNode := None\<rparr>
         | None \<Rightarrow> s1)"

definition walkDown :: "nat \<Rightarrow> suffix_tree \<Rightarrow> bool \<times> suffix_tree" where
  "walkDown nd s =
     (let edgeLen = edgeLength (node_at s nd) (leafEnd s) in
      if activeLength s \<ge> edgeLen then
        (True, s\<lparr>activeEdge := activeEdge s + edgeLen,
                 activeLength := activeLength s - edgeLen,
                 activeNode := nd\<rparr>)
      else (False, s))"

text \<open>Rule 3: the next character is already there.\<close>

definition showStopper :: "suffix_tree \<Rightarrow> suffix_tree" where
  "showStopper s =
     (let s1 = (case lastCreatedNode s of
                  Some lc \<Rightarrow>
                    if activeNode s \<noteq> root s then
                      (upd_node lc (\<lambda>n. n\<lparr>suffixLink := Some (activeNode s)\<rparr>) s)
                        \<lparr>lastCreatedNode := None\<rparr>
                    else s
                | None \<Rightarrow> s)
      in s1\<lparr>activeLength := activeLength s1 + 1\<rparr>)"

text \<open>
  The split of rule 2. The two calls of \<open>charToIndex\<close> read \<open>text[pos]\<close> and
  \<open>text[nextNode.start]\<close> (after the update of \<open>start\<close>), and throw when the index is
  out of range.
\<close>

definition splitEdge :: "int \<Rightarrow> int \<Rightarrow> nat \<Rightarrow> suffix_tree \<Rightarrow> error + suffix_tree" where
  "splitEdge pos edgeIndex nextNode s =
     (let splitEnd = start (node_at s nextNode) + activeLength s - 1;
          splitNode = node_count s;
          s1 = alloc (new_Node (start (node_at s nextNode)) (Some splitEnd)) s;
          s2 = set_child (activeNode s1) edgeIndex splitNode s1
      in case charAt (tree_text s2) pos of
           None \<Rightarrow> Inl TypeError
         | Some cp \<Rightarrow>
             (let leafIndex = charToIndex cp;
                  leaf = node_count s2;
                  s3 = set_child splitNode leafIndex leaf (alloc (new_Node pos None) s2);
                  s4 = upd_node nextNode (\<lambda>n. n\<lparr>start := start n + activeLength s3\<rparr>) s3
              in case charAt (tree_text s4) (start (node_at s4 nextNode)) of
                   None \<Rightarrow> Inl TypeError
                 | Some cn \<Rightarrow>
                     (let nextIndex = charToIndex cn;
                          s5 = set_child splitNode nextIndex nextNode s4;
                          s6 = (case lastCreatedNode s5 of
                                  Some lc \<Rightarrow>
                                    upd_node lc (\<lambda>n. n\<lparr>suffixLink := Some splitNode\<rparr>) s5
                                | None \<Rightarrow> s5)
                      in Inr (s6\<lparr>lastCreatedNode := Some splitNode\<rparr>))))"

definition extend_step :: "int \<Rightarrow> suffix_tree \<Rightarrow> outcome" where
  "extend_step pos s0 =
     (let s = (if activeLength s0 = 0 then s0\<lparr>activeEdge := pos\<rparr> else s0) in
      case charAt (tree_text s) (activeEdge s) of
        None \<Rightarrow> Throw TypeError
      | Some c \<Rightarrow>
          (let edgeIndex = charToIndex c in
           case children (node_at s (activeNode s)) edgeIndex of
             None \<Rightarrow> Continue (setActivePoint pos (newLeaf pos edgeIndex s))
           | Some nextNode \<Rightarrow>
               (case walkDown nextNode s of
                  (True, s') \<Rightarrow> Continue s'
                | (False, _) \<Rightarrow>
                    if charAt (tree_text s) (start (node_at s nextNode) + activeLength s)
                         = charAt (tree_text s) pos
                    then Break (showStopper s)
                    else (case splitEdge pos edgeIndex nextNode s of
                            Inl e \<Rightarrow> Throw e
                          | Inr s' \<Rightarrow> Continue (setActivePoint pos s')))))"

text \<open>
  The \<open>while\<close> loop. It is not known in advance to terminate on every store, so it is a
  partial function: \<open>None\<close> is running forever, \<open>Some (Inl e)\<close> an exception.
\<close>

partial_function (option) extend_loop :: "int \<Rightarrow> suffix_tree \<Rightarrow> (error + suffix_tree) option"
where
  "extend_loop pos s =
     (if remainingSuffixCount s > 0 then
        (case extend_step pos s of
           Continue s' \<Rightarrow> extend_loop pos s'
         | Break s' \<Rightarrow> Some (Inr s')
         | Throw e \<Rightarrow> Some (Inl e))
      else Some (Inr s))"

declare extend_loop.simps [code]

definition extendSuffixTree :: "int \<Rightarrow> suffix_tree \<Rightarrow> (error + suffix_tree) option" where
  "extendSuffixTree pos s =
     extend_loop pos
       (s\<lparr>leafEnd := pos,
          remainingSuffixCount := remainingSuffixCount s + 1,
          lastCreatedNode := None\<rparr>)"

section \<open>Snapshots\<close>

text \<open>
  \<open>cloneNode\<close> creates the copy of a node, with the same \<open>start\<close>, \<open>end\<close>,
  \<open>suffixLink\<close> and \<open>suffixIndex\<close>, then clones the children in index order.
  \<open>cloneNode_from node newNode i\<close> is the \<open>for\<close> loop of \<open>cloneNode(node)\<close> from index
  \<open>i\<close> on, \<open>newNode\<close> being the copy under construction; the recursive call for a child
  allocates the child's copy and runs the child's loop from 0.
\<close>

definition clone_fields :: "node \<Rightarrow> node" where
  "clone_fields n =
     (new_Node (start n) (endv n))\<lparr>suffixLink := suffixLink n, suffixIndex := suffixIndex n\<rparr>"

partial_function (option) cloneNode_from ::
  "nat \<Rightarrow> nat \<Rightarrow> nat \<Rightarrow> suffix_tree \<Rightarrow> suffix_tree option"
where
  "cloneNode_from nd newNode i s =
     (if i < 27 then
        (case children (node_at s nd) (int i) of
           None \<Rightarrow> cloneNode_from nd newNode (i + 1) s
         | Some c \<Rightarrow>
             Option.bind
               (cloneNode_from c (node_count s) 0 (alloc (clone_fields (node_at s c)) s))
               (\<lambda>s'. cloneNode_from nd newNode (i + 1)
                        (set_child newNode (int i) (node_count s) s')))
      else Some s)"

declare cloneNode_from.simps [code]

definition cloneNode :: "nat \<Rightarrow> suffix_tree \<Rightarrow> (nat \<times> suffix_tree) option" where
  "cloneNode nd s =
     map_option (\<lambda>s'. (node_count s, s'))
       (cloneNode_from nd (node_count s) 0 (alloc (clone_fields (node_at s nd)) s))"

definition recordStep :: "char option \<times> int \<Rightarrow> suffix_tree \<Rightarrow> suffix_tree option" where
  "recordStep msg s =
     (case cloneNode (root s) s of
        None \<Rightarrow> None
      | Some (snap, s') \<Rightarrow>
          Some (s'\<lparr>steps := steps s' @
                  [\<lparr>message = msg, snapshotRoot = snap,
                    activeNodeStart = start (node_at s' (activeNode s')),
                    stepActiveEdge = activeEdge s',
                    stepActiveLength = activeLength s',
                    remainder = remainingSuffixCount s'\<rparr>]\<rparr>))"

section \<open>The constructor\<close>

text \<open>The \<open>for\<close> loop of \<open>buildSuffixTreeStepByStep\<close>, over the positions still to do.\<close>

fun build_phases :: "nat list \<Rightarrow> suffix_tree \<Rightarrow> (error + suffix_tree) option" where
  "build_phases [] s = Some (Inr s)"
| "build_phases (i # is) s =
     (case extendSuffixTree (int i) s of
        None \<Rightarrow> None
      | Some (Inl e) \<Rightarrow> Some (Inl e)
      | Some (Inr s') \<Rightarrow>
          (case recordStep (charAt (tree_text s') (int i), int i) s' of
             None \<Rightarrow> None
           | Some s'' \<Rightarrow> build_phases is s''))"

definition init_tree :: "string \<Rightarrow> suffix_tree" where
  "init_tree t =
     \<lparr>tree_text = t, nodes = (\<lambda>_. undefined)(0 := new_Node (- 1) (Some (- 1))),
      node_count = 1, root = 0, activeNode = 0,
      activeEdge = - 1, activeLength = 0, remainingSuffixCount = 0, leafEnd = - 1,
      lastCreatedNode = None, steps = []\<rparr>"

definition buildSuffixTreeStepByStep :: "string \<Rightarrow> (error + suffix_tree) option" where
  "buildSuffixTreeStepByStep t = build_phases [0 ..< length t] (init_tree t)"

text \<open>
  \<open>setSuffixIndexByDFS(node, labelHeight)\<close>, the loop from index \<open>i\<close> on with the
  current value of \<open>isLeaf\<close>.
\<close>

partial_function (option) setSuffixIndex_from ::
  "nat \<Rightarrow> int \<Rightarrow> nat \<Rightarrow> bool \<Rightarrow> suffix_tree \<Rightarrow> suffix_tree option"
where
  "setSuffixIndex_from nd labelHeight i isLeaf s =
     (if i < 27 then
        (case children (node_at s nd) (int i) of
           None \<Rightarrow> setSuffixIndex_from nd labelHeight (i + 1) isLeaf s
         | Some c \<Rightarrow>
             Option.bind
               (setSuffixIndex_from c
                  (labelHeight + edgeLength (node_at s c) (leafEnd s)) 0 True s)
               (\<lambda>s'. setSuffixIndex_from nd labelHeight (i + 1) False s'))
      else Some (if isLeaf
                 then upd_node nd
                        (\<lambda>n. n\<lparr>suffixIndex := int (length (tree_text s)) - labelHeight\<rparr>) s
                 else s))"

declare setSuffixIndex_from.simps [code]

definition setSuffixIndexByDFS :: "nat \<Rightarrow> int \<Rightarrow> suffix_tree \<Rightarrow> suffix_tree option" where
  "setSuffixIndexByDFS nd labelHeight s = setSuffixIndex_from nd labelHeight 0 True s"

text \<open>\<open>new SuffixTree(text)\<close>: the source has no check of \<open>text\<close> before the build.\<close>

definition build :: "string \<Rightarrow> (error + suffix_tree) option" where
  "build t =
     (case buildSuffixTreeStepByStep t of
        None \<Rightarrow> None
      | Some (Inl e) \<Rightarrow> Some (Inl e)
      | Some (Inr s) \<Rightarrow> map_option Inr (setSuffixIndexByDFS (root s) 0 s))"

section \<open>Snapshots with remapped suffix links\<close>

text \<open>
  The file \<open>src/README.md\<close> holds a later copy of \<open>suffixTree.js\<close>, the one the drawing
  code of \<open>gui/main.js\<close> reads (it uses \<open>leafEndSnapshot\<close>). Its construction and its
  queries are those above; \<open>recordStep\<close> takes the position and the value of
  \<open>leafEnd\<close> as further arguments and stores them in the record, and the snapshot is
  made by \<open>cloneTreeWithSuffixLinks\<close>.

  \<open>_cloneNodeHelper(node, map)\<close> creates the copy of a node with the same \<open>start\<close>,
  \<open>end\<close> and \<open>suffixIndex\<close>, enters the pair of the node and its copy in \<open>map\<close> and
  clones the children in index order. A JavaScript \<open>Map\<close> keeps its entries in the order
  of insertion and \<open>set\<close> replaces the value of a key that is present, as
  \<open>AList.update\<close> does on a list of pairs. \<open>cloneNodeHelper_from node newNode i\<close> is
  the \<open>for\<close> loop of \<open>_cloneNodeHelper(node, map)\<close> from index \<open>i\<close> on.
\<close>

record snapshot = step +
  stepPos :: int
  leafEndSnapshot :: int

definition clone_start_end :: "node \<Rightarrow> node" where
  "clone_start_end n = (new_Node (start n) (endv n))\<lparr>suffixIndex := suffixIndex n\<rparr>"

partial_function (option) cloneNodeHelper_from ::
  "nat \<Rightarrow> nat \<Rightarrow> nat \<Rightarrow> suffix_tree \<Rightarrow> (nat \<times> nat) list
     \<Rightarrow> (suffix_tree \<times> (nat \<times> nat) list) option"
where
  "cloneNodeHelper_from nd newNode i s m =
     (if i < 27 then
        (case children (node_at s nd) (int i) of
           None \<Rightarrow> cloneNodeHelper_from nd newNode (i + 1) s m
         | Some c \<Rightarrow>
             Option.bind
               (cloneNodeHelper_from c (node_count s) 0
                  (alloc (clone_start_end (node_at s c)) s)
                  (AList.update c (node_count s) m))
               (\<lambda>(s', m'). cloneNodeHelper_from nd newNode (i + 1)
                                (set_child newNode (int i) (node_count s) s') m'))
      else Some (s, m))"

declare cloneNodeHelper_from.simps [code]

definition cloneNodeHelper ::
  "nat \<Rightarrow> suffix_tree \<Rightarrow> (nat \<times> nat) list \<Rightarrow> (suffix_tree \<times> (nat \<times> nat) list) option"
where
  "cloneNodeHelper nd s m =
     cloneNodeHelper_from nd (node_count s) 0
       (alloc (clone_start_end (node_at s nd)) s) (AList.update nd (node_count s) m)"

text \<open>
  The loop of \<open>cloneTreeWithSuffixLinks\<close> over the entries of the map:
  \<open>clone.suffixLink = map.get(orig.suffixLink) || null\<close> when \<open>orig.suffixLink\<close> is a
  node. The first argument is the whole map, the second the entries still to visit.
\<close>

fun relink :: "(nat \<times> nat) list \<Rightarrow> (nat \<times> nat) list \<Rightarrow> suffix_tree \<Rightarrow> suffix_tree" where
  "relink m [] s = s"
| "relink m ((orig, clone) # es) s =
     relink m es
       (case suffixLink (node_at s orig) of
          None \<Rightarrow> s
        | Some l \<Rightarrow> upd_node clone (\<lambda>n. n\<lparr>suffixLink := map_of m l\<rparr>) s)"

definition cloneTreeWithSuffixLinks :: "nat \<Rightarrow> suffix_tree \<Rightarrow> (nat \<times> suffix_tree) option" where
  "cloneTreeWithSuffixLinks nd s =
     map_option (\<lambda>(s', m). (node_count s, relink m m s')) (cloneNodeHelper nd s [])"

text \<open>
  The list of steps of this version has records with two more fields, so it is passed
  beside the store (whose own \<open>steps\<close> stay empty).
\<close>

definition recordStep_remap ::
  "int \<Rightarrow> char option \<times> int \<Rightarrow> int \<Rightarrow> suffix_tree \<times> snapshot list
     \<Rightarrow> (suffix_tree \<times> snapshot list) option"
where
  "recordStep_remap p msg leafEndNow st =
     (case cloneTreeWithSuffixLinks (root (fst st)) (fst st) of
        None \<Rightarrow> None
      | Some (snap, s') \<Rightarrow>
          Some (s', snd st @
                  [\<lparr>message = msg, snapshotRoot = snap,
                    activeNodeStart = start (node_at s' (activeNode s')),
                    stepActiveEdge = activeEdge s',
                    stepActiveLength = activeLength s',
                    remainder = remainingSuffixCount s',
                    stepPos = p, leafEndSnapshot = leafEndNow\<rparr>]))"

fun build_phases_remap ::
  "nat list \<Rightarrow> suffix_tree \<times> snapshot list \<Rightarrow> (error + suffix_tree \<times> snapshot list) option"
where
  "build_phases_remap [] st = Some (Inr st)"
| "build_phases_remap (i # is) st =
     (case extendSuffixTree (int i) (fst st) of
        None \<Rightarrow> None
      | Some (Inl e) \<Rightarrow> Some (Inl e)
      | Some (Inr s') \<Rightarrow>
          (case recordStep_remap (int i) (charAt (tree_text s') (int i), int i) (leafEnd s')
                  (s', snd st) of
             None \<Rightarrow> None
           | Some st' \<Rightarrow> build_phases_remap is st'))"

definition build_remap :: "string \<Rightarrow> (error + suffix_tree \<times> snapshot list) option" where
  "build_remap t =
     (case build_phases_remap [0 ..< length t] (init_tree t, []) of
        None \<Rightarrow> None
      | Some (Inl e) \<Rightarrow> Some (Inl e)
      | Some (Inr st) \<Rightarrow>
          map_option (\<lambda>s'. Inr (s', snd st)) (setSuffixIndexByDFS (root (fst st)) 0 (fst st)))"

section \<open>Queries\<close>

text \<open>
  The inner \<open>while\<close> loop of \<open>search\<close> and \<open>_findNode\<close>: it compares the pattern from
  \<open>pos\<close> on (the list given) with the edge label from offset \<open>i\<close> on. \<open>None\<close> is the
  mismatch (the early return), \<open>Some rest\<close> the pattern left when the loop ends.
\<close>

fun edge_scan :: "string \<Rightarrow> int \<Rightarrow> int \<Rightarrow> int \<Rightarrow> string \<Rightarrow> string option" where
  "edge_scan t cstart edgeLen i [] = Some []"
| "edge_scan t cstart edgeLen i (c # p) =
     (if i < edgeLen then
        (if charAt t (cstart + i) \<noteq> Some c then None
         else edge_scan t cstart edgeLen (i + 1) p)
      else Some (c # p))"

partial_function (option) search_loop :: "suffix_tree \<Rightarrow> nat \<Rightarrow> string \<Rightarrow> bool option" where
  "search_loop s current pat =
     (case pat of
        [] \<Rightarrow> Some True
      | c # _ \<Rightarrow>
          (case children (node_at s current) (charToIndex c) of
             None \<Rightarrow> Some False
           | Some child \<Rightarrow>
               (case edge_scan (tree_text s) (start (node_at s child))
                       (edgeLength (node_at s child) (leafEnd s)) 0 pat of
                  None \<Rightarrow> Some False
                | Some pat' \<Rightarrow> search_loop s child pat')))"

declare search_loop.simps [code]

definition search :: "suffix_tree \<Rightarrow> string \<Rightarrow> bool option" where
  "search s pattern = search_loop s (root s) pattern"

partial_function (option) findNode_loop ::
  "suffix_tree \<Rightarrow> nat \<Rightarrow> string \<Rightarrow> nat option option"
where
  "findNode_loop s current pat =
     (case pat of
        [] \<Rightarrow> Some (Some current)
      | c # _ \<Rightarrow>
          (case children (node_at s current) (charToIndex c) of
             None \<Rightarrow> Some None
           | Some child \<Rightarrow>
               (case edge_scan (tree_text s) (start (node_at s child))
                       (edgeLength (node_at s child) (leafEnd s)) 0 pat of
                  None \<Rightarrow> Some None
                | Some pat' \<Rightarrow> findNode_loop s child pat')))"

declare findNode_loop.simps [code]

definition findNode :: "suffix_tree \<Rightarrow> string \<Rightarrow> nat option option" where
  "findNode s pattern = findNode_loop s (root s) pattern"

text \<open>\<open>_collectLeafIndices(node, arr)\<close>, the loop from index \<open>i\<close> on.\<close>

partial_function (option) collectLeafIndices_from ::
  "suffix_tree \<Rightarrow> nat \<Rightarrow> nat \<Rightarrow> bool \<Rightarrow> int list \<Rightarrow> int list option"
where
  "collectLeafIndices_from s nd i isLeaf arr =
     (if i < 27 then
        (case children (node_at s nd) (int i) of
           None \<Rightarrow> collectLeafIndices_from s nd (i + 1) isLeaf arr
         | Some c \<Rightarrow>
             Option.bind (collectLeafIndices_from s c 0 True arr)
               (\<lambda>arr'. collectLeafIndices_from s nd (i + 1) False arr'))
      else Some (if isLeaf \<and> suffixIndex (node_at s nd) \<noteq> - 1
                 then arr @ [suffixIndex (node_at s nd)] else arr))"

declare collectLeafIndices_from.simps [code]

definition collectLeafIndices :: "suffix_tree \<Rightarrow> nat \<Rightarrow> int list \<Rightarrow> int list option" where
  "collectLeafIndices s nd arr = collectLeafIndices_from s nd 0 True arr"

definition findAllMatches :: "suffix_tree \<Rightarrow> string \<Rightarrow> int list option" where
  "findAllMatches s pattern =
     (case findNode s pattern of
        None \<Rightarrow> None
      | Some None \<Rightarrow> Some []
      | Some (Some nd) \<Rightarrow> map_option sort (collectLeafIndices s nd []))"

text \<open>
  \<open>longestRepeatedSubstring\<close>: the inner function \<open>dfs(node, path)\<close> with the variable
  \<open>lrs\<close> of the enclosing function passed along. \<open>lrs_visit\<close> is the part before the
  second loop, \<open>lrs_from\<close> that loop from index \<open>i\<close> on.
\<close>

definition childCount :: "suffix_tree \<Rightarrow> nat \<Rightarrow> nat" where
  "childCount s nd = length (filter (\<lambda>i. children (node_at s nd) (int i) \<noteq> None) [0 ..< 27])"

definition lrs_visit :: "suffix_tree \<Rightarrow> nat \<Rightarrow> string \<Rightarrow> string \<Rightarrow> string" where
  "lrs_visit s nd path lrs =
     (if childCount s nd \<ge> 2 \<and> length path > length lrs then path else lrs)"

definition edgeStr :: "suffix_tree \<Rightarrow> nat \<Rightarrow> string" where
  "edgeStr s c =
     substring (tree_text s) (start (node_at s c))
       (start (node_at s c) + edgeLength (node_at s c) (leafEnd s))"

partial_function (option) lrs_from ::
  "suffix_tree \<Rightarrow> nat \<Rightarrow> string \<Rightarrow> nat \<Rightarrow> string \<Rightarrow> string option"
where
  "lrs_from s nd path i lrs =
     (if i < 27 then
        (case children (node_at s nd) (int i) of
           None \<Rightarrow> lrs_from s nd path (i + 1) lrs
         | Some c \<Rightarrow>
             Option.bind
               (lrs_from s c (path @ edgeStr s c) 0 (lrs_visit s c (path @ edgeStr s c) lrs))
               (\<lambda>lrs'. lrs_from s nd path (i + 1) lrs'))
      else Some lrs)"

declare lrs_from.simps [code]

definition longestRepeatedSubstring :: "suffix_tree \<Rightarrow> string option" where
  "longestRepeatedSubstring s = lrs_from s (root s) [] 0 (lrs_visit s (root s) [] [])"

text \<open>
  The first \<open>shortestUniqueSubstring\<close> (brute force over the substrings of the text,
  by increasing length, counting occurrences with \<open>findAllMatches\<close>).
\<close>

fun sus_candidates :: "suffix_tree \<Rightarrow> nat \<Rightarrow> nat list \<Rightarrow> string list option" where
  "sus_candidates s len [] = Some []"
| "sus_candidates s len (i # is) =
     (let candidate = substring (tree_text s) (int i) (int i + int len) in
      if CHR ''$'' \<in> set candidate then sus_candidates s len is
      else (case findAllMatches s candidate of
              None \<Rightarrow> None
            | Some occ \<Rightarrow>
                (case sus_candidates s len is of
                   None \<Rightarrow> None
                 | Some cs \<Rightarrow> Some (if length occ = 1 then candidate # cs else cs))))"

fun sus_lengths :: "suffix_tree \<Rightarrow> nat list \<Rightarrow> string option" where
  "sus_lengths s [] = Some []"
| "sus_lengths s (len # lens) =
     (case sus_candidates s len [0 ..< Suc (length (tree_text s) - len)] of
        None \<Rightarrow> None
      | Some cs \<Rightarrow> if cs \<noteq> [] then Some (hd (sort cs)) else sus_lengths s lens)"

definition shortestUniqueSubstring :: "suffix_tree \<Rightarrow> string option" where
  "shortestUniqueSubstring s = sus_lengths s [1 ..< Suc (length (tree_text s))]"

text \<open>
  The second \<open>shortestUniqueSubstring\<close> (a traversal of the tree counting leaves, with
  the prefixes of the path to a node that has one leaf below it as candidates). The
  variables \<open>sus\<close> and \<open>minLen\<close> of the enclosing function are passed along as a pair.
\<close>

fun sus_prefixes :: "string \<Rightarrow> nat list \<Rightarrow> string \<times> int \<Rightarrow> string \<times> int" where
  "sus_prefixes path [] acc = acc"
| "sus_prefixes path (k # ks) (sus, minLen) =
     (let candidate = substring path 0 (int k) in
      if CHR ''$'' \<in> set candidate then (sus, minLen)
      else if int (length candidate) < minLen
           then sus_prefixes path ks (candidate, int (length candidate))
           else sus_prefixes path ks (sus, minLen))"

definition sus_visit :: "string \<Rightarrow> int \<Rightarrow> string \<times> int \<Rightarrow> string \<times> int" where
  "sus_visit pathSoFar totalLeaves acc =
     (if totalLeaves = 1 then
        sus_prefixes pathSoFar [1 ..< length pathSoFar]
          (if CHR ''$'' \<notin> set pathSoFar \<and> length pathSoFar > 0
              \<and> int (length pathSoFar) < snd acc
           then (pathSoFar, int (length pathSoFar)) else acc)
      else acc)"

partial_function (option) susDfs_from ::
  "suffix_tree \<Rightarrow> nat \<Rightarrow> string \<Rightarrow> nat \<Rightarrow> int \<Rightarrow> int \<Rightarrow> string \<times> int
     \<Rightarrow> (int \<times> string \<times> int) option"
where
  "susDfs_from s nd pathSoFar i totalLeaves childCnt acc =
     (if i < 27 then
        (case children (node_at s nd) (int i) of
           None \<Rightarrow> susDfs_from s nd pathSoFar (i + 1) totalLeaves childCnt acc
         | Some c \<Rightarrow>
             Option.bind (susDfs_from s c (pathSoFar @ edgeStr s c) 0 0 0 acc)
               (\<lambda>(leaves, acc').
                  susDfs_from s nd pathSoFar (i + 1) (totalLeaves + leaves) (childCnt + 1) acc'))
      else (let total = (if childCnt = 0 then 1 else totalLeaves)
            in Some (total, sus_visit pathSoFar total acc)))"

declare susDfs_from.simps [code]

definition shortestUniqueSubstring_dfs :: "suffix_tree \<Rightarrow> string option" where
  "shortestUniqueSubstring_dfs s =
     map_option (\<lambda>(leaves, sus, minLen). sus)
       (susDfs_from s (root s) [] 0 0 0 ([], 9007199254740991))"

section \<open>Texts, occurrences and the nodes of a snapshot\<close>

text \<open>
  A valid text: letters \<open>A\<close> to \<open>Z\<close>, then the terminal \<open>$\<close> as the last
  character and nowhere else.
\<close>

definition letter :: "char \<Rightarrow> bool" where
  "letter c = (of_char (CHR ''A'') \<le> (of_char c :: nat) \<and> (of_char c :: nat) \<le> of_char (CHR ''Z''))"

definition valid_text :: "string \<Rightarrow> bool" where
  "valid_text t = (t \<noteq> [] \<and> last t = CHR ''$'' \<and> list_all letter (butlast t))"

text \<open>The positions of the text where the pattern occurs, in increasing order.\<close>

definition occurrences :: "string \<Rightarrow> string \<Rightarrow> int list" where
  "occurrences t p =
     map int (filter (\<lambda>i. take (length p) (drop i t) = p) [0 ..< length t])"

text \<open>
  The nodes a traversal finds from a node \<open>r\<close>, following \<open>children[0]\<close> to
  \<open>children[26]\<close> as every loop of the source does.
\<close>

inductive reach :: "suffix_tree \<Rightarrow> nat \<Rightarrow> nat \<Rightarrow> bool" for s :: suffix_tree and r :: nat where
  reach_self: "reach s r r"
| reach_child:
    "reach s r v \<Longrightarrow> k \<in> set [0 ..< 27] \<Longrightarrow> children (node_at s v) (int k) = Some c
       \<Longrightarrow> reach s r c"

text \<open>A list of nodes that contains the children of each of its members.\<close>

definition closed_under_children :: "suffix_tree \<Rightarrow> nat list \<Rightarrow> bool" where
  "closed_under_children s A =
     list_all (\<lambda>u. list_all (\<lambda>k. case children (node_at s u) (int k) of
                                      None \<Rightarrow> True | Some c \<Rightarrow> c \<in> set A) [0 ..< 27]) A"

section \<open>Two runs of the constructor\<close>

lemmas run_defs =
  build_def buildSuffixTreeStepByStep_def init_tree_def extendSuffixTree_def
  extend_loop.simps extend_step_def setActivePoint_def newLeaf_def walkDown_def
  showStopper_def splitEdge_def recordStep_def cloneNode_def cloneNode_from.simps
  clone_fields_def setSuffixIndexByDFS_def setSuffixIndex_from.simps new_Node_def
  edgeLength_def charAt_def charToIndex_def substring_def node_at_def upd_node_def
  set_child_def alloc_def search_def search_loop.simps findNode_def findNode_loop.simps
  collectLeafIndices_def collectLeafIndices_from.simps findAllMatches_def
  shortestUniqueSubstring_def sus_visit_def edgeStr_def susDfs_from.simps
  shortestUniqueSubstring_dfs_def closed_under_children_def list_all_iff Let_def

lemma reach_closed:
  assumes "reach s r v" and "closed_under_children s A" and "r \<in> set A"
  shows "v \<in> set A"
  using assms
proof (induction rule: reach.induct)
  case reach_self
  then show ?case by simp
next
  case (reach_child v k c)
  then have "v \<in> set A" by simp
  with reach_child.prems(1) reach_child.hyps(2,3) show ?case
    unfolding closed_under_children_def list_all_iff by force
qed

text \<open>
  The text \<open>AA$\<close>: the tree has the root 0 and one internal node, whose suffix link is
  the root; the third snapshot has the root 9 and the copy 10 of the internal node.
\<close>

lemma run_AA:
  "\<exists>s. build ''AA$'' = Some (Inr s)
     \<and> tree_text s = ''AA$'' \<and> length (steps s) = 3 \<and> root s = 0
     \<and> snapshotRoot (steps s ! 2) = 9
     \<and> children (node_at s 9) 0 = Some 10 \<and> suffixLink (node_at s 10) = Some 0
     \<and> closed_under_children s [9, 10, 11, 12, 13]
     \<and> shortestUniqueSubstring s = Some ''AA''
     \<and> shortestUniqueSubstring_dfs s = Some ''A''"
proof -
  have "case build ''AA$'' of
          Some (Inr s) \<Rightarrow>
            tree_text s = ''AA$'' \<and> length (steps s) = 3 \<and> root s = 0
            \<and> snapshotRoot (steps s ! 2) = 9
            \<and> children (node_at s 9) 0 = Some 10 \<and> suffixLink (node_at s 10) = Some 0
            \<and> closed_under_children s [9, 10, 11, 12, 13]
            \<and> shortestUniqueSubstring s = Some ''AA''
            \<and> shortestUniqueSubstring_dfs s = Some ''A''
        | _ \<Rightarrow> False"
    by (simp add: run_defs)
  then show ?thesis
    by (simp split: option.splits sum.splits)
qed

text \<open>The text \<open>A$B\<close>, with the terminal in the middle.\<close>

lemma run_AB:
  "\<exists>s. build ''A$B'' = Some (Inr s)
     \<and> search s ''$B'' = Some True \<and> findAllMatches s ''B'' = Some [2]"
proof -
  have "case build ''A$B'' of
          Some (Inr s) \<Rightarrow> search s ''$B'' = Some True \<and> findAllMatches s ''B'' = Some [2]
        | _ \<Rightarrow> False"
    by (simp add: run_defs)
  then show ?thesis
    by (simp split: option.splits sum.splits)
qed

section \<open>The steps recorded\<close>

lemma steps_upd_node [simp]: "steps (upd_node v f s) = steps s"
  by (simp add: upd_node_def)

lemma steps_set_child [simp]: "steps (set_child v k c s) = steps s"
  by (simp add: set_child_def)

lemma steps_alloc [simp]: "steps (alloc n s) = steps s"
  by (simp add: alloc_def)

lemma steps_setActivePoint [simp]: "steps (setActivePoint pos s) = steps s"
  by (simp add: setActivePoint_def Let_def)

lemma steps_newLeaf [simp]: "steps (newLeaf pos k s) = steps s"
  by (simp add: newLeaf_def Let_def split: option.splits)

lemma steps_showStopper [simp]: "steps (showStopper s) = steps s"
  by (simp add: showStopper_def Let_def split: option.splits)

lemma steps_walkDown: "walkDown nd s = (b, s') \<Longrightarrow> steps s' = steps s"
  by (auto simp: walkDown_def Let_def split: if_splits)

lemma steps_splitEdge: "splitEdge pos k nx s = Inr s' \<Longrightarrow> steps s' = steps s"
  by (auto simp: splitEdge_def Let_def split: option.splits)

lemma steps_extend_step:
  "extend_step pos s = Continue s' \<Longrightarrow> steps s' = steps s"
  "extend_step pos s = Break s' \<Longrightarrow> steps s' = steps s"
  unfolding extend_step_def Let_def
  by (auto split: option.splits if_splits prod.splits bool.splits sum.splits
      dest: steps_walkDown steps_splitEdge)

lemma steps_extend_loop:
  assumes "extend_loop pos s = Some r"
  shows "\<forall>s'. r = Inr s' \<longrightarrow> steps s' = steps s"
  by (rule extend_loop.raw_induct[OF _ assms])
    (auto split: if_splits outcome.splits dest: steps_extend_step)

lemma steps_cloneNode_from:
  assumes "cloneNode_from nd nn i s = Some s'"
  shows "steps s' = steps s"
  by (rule cloneNode_from.raw_induct[OF _ assms])
    (auto split: if_splits option.splits bind_splits)

lemma steps_setSuffixIndex_from:
  assumes "setSuffixIndex_from nd lh i b s = Some s'"
  shows "steps s' = steps s"
  by (rule setSuffixIndex_from.raw_induct[OF _ assms])
    (auto split: if_splits option.splits bind_splits)

lemma length_steps_recordStep:
  "recordStep m s = Some s' \<Longrightarrow> length (steps s') = Suc (length (steps s))"
  by (auto simp: recordStep_def cloneNode_def split: option.splits
      dest!: steps_cloneNode_from)

lemma length_steps_build_phases:
  "build_phases is s = Some (Inr s') \<Longrightarrow> length (steps s') = length (steps s) + length is"
proof (induction "is" arbitrary: s)
  case Nil
  then show ?case by simp
next
  case (Cons i "is")
  from Cons.prems obtain s1 s2 where
    e: "extendSuffixTree (int i) s = Some (Inr s1)"
    and r: "recordStep (charAt (tree_text s1) (int i), int i) s1 = Some s2"
    and b: "build_phases is s2 = Some (Inr s')"
    by (auto split: option.splits sum.splits)
  from e have "steps s1 = steps s"
    using steps_extend_loop by (fastforce simp: extendSuffixTree_def)
  with length_steps_recordStep[OF r] Cons.IH[OF b] show ?case by simp
qed

section \<open>Positions of the text\<close>

definition tch :: "string \<Rightarrow> int \<Rightarrow> char" where
  "tch t k = t ! nat k"

definition agree :: "string \<Rightarrow> int \<Rightarrow> int \<Rightarrow> int \<Rightarrow> bool" where
  "agree t a b d = (\<forall>x. 0 \<le> x \<and> x < d \<longrightarrow> tch t (a + x) = tch t (b + x))"

lemma charAt_tch: "0 \<le> k \<Longrightarrow> k < int (length t) \<Longrightarrow> charAt t k = Some (tch t k)"
  by (simp add: charAt_def tch_def)

lemma charAt_None: "\<not> (0 \<le> k \<and> k < int (length t)) \<Longrightarrow> charAt t k = None"
  by (simp add: charAt_def)

lemma agreeD: "agree t a b d \<Longrightarrow> 0 \<le> x \<Longrightarrow> x < d \<Longrightarrow> tch t (a + x) = tch t (b + x)"
  by (simp add: agree_def)

lemma agreeI: "(\<And>x. 0 \<le> x \<Longrightarrow> x < d \<Longrightarrow> tch t (a + x) = tch t (b + x)) \<Longrightarrow> agree t a b d"
  by (simp add: agree_def)

lemma agree_refl [simp]: "agree t a a d"
  by (simp add: agree_def)

lemma agree_eq: "agree t a b d \<Longrightarrow> a = a' \<Longrightarrow> b = b' \<Longrightarrow> d = d' \<Longrightarrow> agree t a' b' d'"
  by simp

lemma agree_sym: "agree t a b d \<Longrightarrow> agree t b a d"
  by (simp add: agree_def)

lemma agree_mono: "agree t a b d \<Longrightarrow> d' \<le> d \<Longrightarrow> agree t a b d'"
  by (simp add: agree_def)

lemma agree_trans: "agree t a b d \<Longrightarrow> agree t b c d' \<Longrightarrow> e \<le> d \<Longrightarrow> e \<le> d' \<Longrightarrow> agree t a c e"
  by (simp add: agree_def)

lemma agree_nonpos [simp]: "d \<le> 0 \<Longrightarrow> agree t a b d"
  by (auto simp: agree_def)

lemma agree_shift: "agree t a b d \<Longrightarrow> 0 \<le> k \<Longrightarrow> agree t (a + k) (b + k) (d - k)"
proof (rule agreeI)
  fix x assume a: "agree t a b d" "0 \<le> k" "0 \<le> x" "x < d - k"
  from agreeD[OF a(1), of "k + x"] a show "tch t (a + k + x) = tch t (b + k + x)"
    by (simp add: add.assoc)
qed

lemma agree_snoc:
  "agree t a b d \<Longrightarrow> tch t (a + d) = tch t (b + d) \<Longrightarrow> agree t a b (d + 1)"
  unfolding agree_def
  by (metis add_le_cancel_left le_less zless_add1_eq)

section \<open>The tree in the store\<close>

definition nstart :: "suffix_tree \<Rightarrow> nat \<Rightarrow> int" where
  "nstart s v = start (node_at s v)"

definition nend :: "suffix_tree \<Rightarrow> nat \<Rightarrow> int option" where
  "nend s v = endv (node_at s v)"

definition kid :: "suffix_tree \<Rightarrow> nat \<Rightarrow> int \<Rightarrow> nat option" where
  "kid s v k = children (node_at s v) k"

definition slink :: "suffix_tree \<Rightarrow> nat \<Rightarrow> nat option" where
  "slink s v = suffixLink (node_at s v)"

definition eend :: "suffix_tree \<Rightarrow> nat \<Rightarrow> int" where
  "eend s v = (case nend s v of Some e \<Rightarrow> e | None \<Rightarrow> leafEnd s)"

lemma edgeLength_eend: "edgeLength (node_at s v) (leafEnd s) = eend s v - nstart s v + 1"
  by (simp add: edgeLength_def eend_def nend_def nstart_def)

text \<open>
  The ghost state of the proof: the set of the nodes of the tree, the parent of each
  node, and for each node a position of the text where its path label occurs. The path
  label of \<open>v\<close> is the text from \<open>hpos v\<close> to the end of the edge into \<open>v\<close>.
\<close>

record ghost =
  live :: "nat set"
  par :: "nat \<Rightarrow> nat"
  hpos :: "nat \<Rightarrow> int"

definition dep :: "suffix_tree \<Rightarrow> ghost \<Rightarrow> nat \<Rightarrow> int" where
  "dep s g v = eend s v + 1 - hpos g v"

definition first_key :: "suffix_tree \<Rightarrow> nat \<Rightarrow> int" where
  "first_key s v = charToIndex (tch (tree_text s) (nstart s v))"

definition edge_ok :: "suffix_tree \<Rightarrow> ghost \<Rightarrow> nat \<Rightarrow> bool" where
  "edge_ok s g v \<longleftrightarrow>
     par g v \<in> live g \<and> kid s (par g v) (first_key s v) = Some v \<and>
     0 \<le> hpos g v \<and> 0 \<le> dep s g (par g v) \<and>
     hpos g v + dep s g (par g v) = nstart s v \<and>
     nstart s v \<le> eend s v \<and> eend s v \<le> leafEnd s \<and>
     agree (tree_text s) (hpos g (par g v)) (hpos g v) (dep s g (par g v))"

definition kids_ok :: "suffix_tree \<Rightarrow> ghost \<Rightarrow> nat \<Rightarrow> bool" where
  "kids_ok s g v \<longleftrightarrow>
     (\<forall>k c. kid s v k = Some c \<longrightarrow>
        c \<in> live g \<and> c \<noteq> root s \<and> par g c = v \<and> k = first_key s c)"

definition struct_inv :: "suffix_tree \<Rightarrow> ghost \<Rightarrow> bool" where
  "struct_inv s g \<longleftrightarrow>
     root s \<in> live g \<and> (\<forall>v \<in> live g. v < node_count s) \<and>
     nend s (root s) = Some (- 1) \<and> hpos g (root s) = 0 \<and>
     - 1 \<le> leafEnd s \<and> leafEnd s < int (length (tree_text s)) \<and>
     (\<forall>v \<in> live g. kids_ok s g v) \<and>
     (\<forall>v \<in> live g. v \<noteq> root s \<longrightarrow> edge_ok s g v)"

lemma struct_rootD:
  assumes "struct_inv s g"
  shows "root s \<in> live g" "nend s (root s) = Some (- 1)" "hpos g (root s) = 0"
    "dep s g (root s) = 0" "- 1 \<le> leafEnd s" "leafEnd s < int (length (tree_text s))"
  using assms by (simp_all add: struct_inv_def dep_def eend_def)

lemma struct_fresh: "struct_inv s g \<Longrightarrow> v \<in> live g \<Longrightarrow> v < node_count s"
  by (simp add: struct_inv_def)

lemma struct_kidD:
  assumes "struct_inv s g" "v \<in> live g" "kid s v k = Some c"
  shows "c \<in> live g" "c \<noteq> root s" "par g c = v" "k = first_key s c"
  using assms by (auto simp: struct_inv_def kids_ok_def)

lemma struct_edgeD:
  assumes "struct_inv s g" "v \<in> live g" "v \<noteq> root s"
  shows "par g v \<in> live g" "kid s (par g v) (first_key s v) = Some v"
    "0 \<le> hpos g v" "0 \<le> dep s g (par g v)"
    "hpos g v + dep s g (par g v) = nstart s v"
    "nstart s v \<le> eend s v" "eend s v \<le> leafEnd s"
    "agree (tree_text s) (hpos g (par g v)) (hpos g v) (dep s g (par g v))"
  using assms by (auto simp: struct_inv_def edge_ok_def)

lemma dep_par_less:
  assumes "struct_inv s g" "v \<in> live g" "v \<noteq> root s"
  shows "dep s g (par g v) < dep s g v"
  using struct_edgeD(5,6)[OF assms] by (simp add: dep_def)

lemma dep_nonneg:
  assumes "struct_inv s g" "v \<in> live g"
  shows "0 \<le> dep s g v"
proof (cases "v = root s")
  case True
  with assms show ?thesis by (simp add: struct_rootD)
next
  case False
  with dep_par_less[OF assms] struct_edgeD(4)[OF assms] show ?thesis by simp
qed

lemma dep_pos:
  assumes "struct_inv s g" "v \<in> live g" "v \<noteq> root s"
  shows "0 < dep s g v"
  using dep_par_less[OF assms] struct_edgeD(4)[OF assms] by simp

lemma dep_zero_root:
  assumes "struct_inv s g" "v \<in> live g" "dep s g v \<le> 0"
  shows "v = root s"
  using dep_pos[OF assms(1,2)] assms(3) by force

lemma label_in_text:
  assumes "struct_inv s g" "v \<in> live g"
  shows "0 \<le> hpos g v" "hpos g v + dep s g v \<le> leafEnd s + 1"
proof -
  show "0 \<le> hpos g v"
    using assms struct_edgeD(3)[OF assms] struct_rootD(3)[OF assms(1)] by (cases "v = root s") auto
  show "hpos g v + dep s g v \<le> leafEnd s + 1"
    using assms struct_edgeD(7)[OF assms] struct_rootD(2,5)[OF assms(1)]
    by (cases "v = root s") (auto simp: dep_def eend_def)
qed

lemma kid_dep:
  assumes "struct_inv s g" "v \<in> live g" "kid s v k = Some c"
  shows "dep s g v < dep s g c" "hpos g c + dep s g v = nstart s c"
    "agree (tree_text s) (hpos g v) (hpos g c) (dep s g v)"
    "k = charToIndex (tch (tree_text s) (hpos g c + dep s g v))"
proof -
  note k = struct_kidD[OF assms]
  from dep_par_less[OF assms(1) k(1,2)] k(3) show "dep s g v < dep s g c" by simp
  from struct_edgeD(5)[OF assms(1) k(1,2)] k(3) show e: "hpos g c + dep s g v = nstart s c" by simp
  from struct_edgeD(8)[OF assms(1) k(1,2)] k(3)
  show "agree (tree_text s) (hpos g v) (hpos g c) (dep s g v)" by simp
  from k(4) e show "k = charToIndex (tch (tree_text s) (hpos g c + dep s g v))"
    by (simp add: first_key_def)
qed

section \<open>Ancestors\<close>

inductive anc :: "suffix_tree \<Rightarrow> ghost \<Rightarrow> nat \<Rightarrow> nat \<Rightarrow> bool" for s :: suffix_tree and g :: ghost where
  anc_refl: "v \<in> live g \<Longrightarrow> anc s g v v"
| anc_step: "anc s g u (par g v) \<Longrightarrow> v \<in> live g \<Longrightarrow> v \<noteq> root s \<Longrightarrow> anc s g u v"

lemma anc_live: "anc s g u v \<Longrightarrow> u \<in> live g \<and> v \<in> live g"
  by (induction rule: anc.induct) auto

lemma anc_prefix:
  assumes "struct_inv s g" "anc s g u v"
  shows "dep s g u \<le> dep s g v \<and> agree (tree_text s) (hpos g u) (hpos g v) (dep s g u)"
  using assms(2)
proof (induction rule: anc.induct)
  case (anc_refl v)
  then show ?case by simp
next
  case (anc_step u v)
  from dep_par_less[OF assms(1) anc_step.hyps(2,3)] anc_step.IH
  have le: "dep s g u \<le> dep s g (par g v)" "dep s g u \<le> dep s g v" by auto
  from agree_trans[OF _ struct_edgeD(8)[OF assms(1) anc_step.hyps(2,3)] order_refl le(1)]
    anc_step.IH le show ?case by blast
qed

lemma anc_root:
  assumes "struct_inv s g" "v \<in> live g"
  shows "anc s g (root s) v"
  using assms(2)
proof (induction "nat (dep s g v)" arbitrary: v rule: less_induct)
  case less
  show ?case
  proof (cases "v = root s")
    case True
    with less.prems show ?thesis by (simp add: anc_refl)
  next
    case False
    note e = struct_edgeD[OF assms(1) less.prems False]
    from dep_par_less[OF assms(1) less.prems False] e(4)
    have "nat (dep s g (par g v)) < nat (dep s g v)" by simp
    from less.hyps[OF this e(1)] less.prems False show ?thesis
      by (rule anc_step)
  qed
qed

lemma anc_child:
  assumes "struct_inv s g" "anc s g u v" "u \<noteq> v"
  shows "\<exists>k c. kid s u k = Some c \<and> anc s g c v"
  using assms(2,3)
proof (induction rule: anc.induct)
  case (anc_refl v)
  then show ?case by simp
next
  case (anc_step u v)
  show ?case
  proof (cases "u = par g v")
    case True
    from struct_edgeD(2)[OF assms(1) anc_step.hyps(2,3)] True anc_refl[OF anc_step.hyps(2)]
    show ?thesis by blast
  next
    case False
    from anc_step.IH[OF False] obtain k c where "kid s u k = Some c" "anc s g c (par g v)"
      by blast
    with anc.anc_step[OF _ anc_step.hyps(2,3)] show ?thesis by blast
  qed
qed

lemma siblings_eq:
  assumes "struct_inv s g" "p \<in> live g" "kid s p k = Some c" "kid s p k' = Some c'"
    "tch (tree_text s) (nstart s c) = tch (tree_text s) (nstart s c')"
  shows "c = c'"
proof -
  from struct_kidD(4)[OF assms(1,2,3)] struct_kidD(4)[OF assms(1,2,4)] assms(5)
  have "k = k'" by (simp add: first_key_def)
  with assms(3,4) show ?thesis by simp
qed

lemma children_of_par:
  assumes "struct_inv s g" "u \<in> live g" "u \<noteq> root s" "v \<in> live g" "v \<noteq> root s"
    "par g u = par g v"
    "tch (tree_text s) (nstart s u) = tch (tree_text s) (nstart s v)"
  shows "u = v"
  using siblings_eq[OF assms(1) struct_edgeD(1)[OF assms(1,4,5)] _ struct_edgeD(2)[OF assms(1,4,5)] assms(7)]
    struct_edgeD(2)[OF assms(1,2,3)] assms(6) by simp

section \<open>Nodes are determined by their path labels\<close>

lemma prefix_anc:
  assumes S: "struct_inv s g"
  shows "u \<in> live g \<Longrightarrow> v \<in> live g \<Longrightarrow> dep s g u \<le> dep s g v
    \<Longrightarrow> agree (tree_text s) (hpos g u) (hpos g v) (dep s g u) \<Longrightarrow> anc s g u v"
proof (induction "nat (dep s g v)" arbitrary: u v rule: less_induct)
  case less
  note uL = less.prems(1) and vL = less.prems(2) and le = less.prems(3) and uv = less.prems(4)
  show ?case
  proof (cases "v = root s")
    case True
    with le struct_rootD(4)[OF S] have "dep s g u \<le> 0" by simp
    from dep_zero_root[OF S uL this] True vL show ?thesis by (simp add: anc_refl)
  next
    case vr: False
    define p where "p = par g v"
    note ev = struct_edgeD[OF S vL vr, folded p_def]
    have pv: "dep s g p < dep s g v" using dep_par_less[OF S vL vr] by (simp add: p_def)
    have mp: "nat (dep s g p) < nat (dep s g v)" using pv ev(4) by simp
    show ?thesis
    proof (cases "dep s g u \<le> dep s g p")
      case True
      have "agree (tree_text s) (hpos g u) (hpos g p) (dep s g u)"
        by (rule agree_trans[OF uv agree_sym[OF ev(8)] order_refl True])
      from less.hyps[OF mp uL ev(1) True this] have "anc s g u (par g v)" by (simp add: p_def)
      then show ?thesis using vL vr by (rule anc_step)
    next
      case False
      then have up: "dep s g p < dep s g u" by simp
      have ur: "u \<noteq> root s" using up ev(4) struct_rootD(4)[OF S] by auto
      define q where "q = par g u"
      note eu = struct_edgeD[OF S uL ur, folded q_def]
      have qu: "dep s g q < dep s g u" using dep_par_less[OF S uL ur] by (simp add: q_def)
      have qv: "agree (tree_text s) (hpos g q) (hpos g v) (dep s g q)"
        using agree_trans[OF eu(8) uv order_refl] qu by simp
      show ?thesis
      proof (cases "dep s g q \<le> dep s g p")
        case qp: True
        have "agree (tree_text s) (hpos g q) (hpos g p) (dep s g q)"
          by (rule agree_trans[OF qv agree_sym[OF ev(8)] order_refl qp])
        from less.hyps[OF mp eu(1) ev(1) qp this] have aqp: "anc s g q p" .
        show ?thesis
        proof (cases "q = p")
          case True
          have "tch (tree_text s) (nstart s u) = tch (tree_text s) (nstart s v)"
            using agreeD[OF uv ev(4) up] eu(5) ev(5) True by simp
          from children_of_par[OF S uL ur vL vr _ this] True have "u = v"
            by (simp add: p_def q_def)
          with vL show ?thesis by (simp add: anc_refl)
        next
          case False
          from anc_child[OF S aqp False] obtain k c where
            kc: "kid s q k = Some c" and acp: "anc s g c p" by blast
          note cp = anc_prefix[OF S acp]
          note kd = kid_dep[OF S eu(1) kc]
          have "tch (tree_text s) (nstart s c) = tch (tree_text s) (hpos g p + dep s g q)"
            using agreeD[OF conjunct2[OF cp] eu(4) kd(1)] kd(2) by simp
          also have "\<dots> = tch (tree_text s) (hpos g v + dep s g q)"
            using agreeD[OF ev(8) eu(4)] kd(1) cp by simp
          also have "\<dots> = tch (tree_text s) (nstart s u)"
            using agreeD[OF uv eu(4) qu] eu(5) by simp
          finally have "c = u"
            using siblings_eq[OF S eu(1) kc eu(2)] by simp
          with cp up show ?thesis by simp
        qed
      next
        case False
        then have pq: "dep s g p < dep s g q" by simp
        have "agree (tree_text s) (hpos g p) (hpos g q) (dep s g p)"
          using agree_trans[OF ev(8) agree_sym[OF qv] order_refl] pq by simp
        moreover have "nat (dep s g q) < nat (dep s g v)" using qu le eu(4) by simp
        ultimately have apq: "anc s g p q"
          using less.hyps[OF _ ev(1) eu(1)] pq by simp
        have "p \<noteq> q" using pq by auto
        from anc_child[OF S apq this] obtain k c where
          kc: "kid s p k = Some c" and acq: "anc s g c q" by blast
        note cq = anc_prefix[OF S acq]
        note kd = kid_dep[OF S ev(1) kc]
        have "tch (tree_text s) (nstart s c) = tch (tree_text s) (hpos g q + dep s g p)"
          using agreeD[OF conjunct2[OF cq] ev(4) kd(1)] kd(2) by simp
        also have "\<dots> = tch (tree_text s) (nstart s v)"
          using agreeD[OF qv ev(4) pq] ev(5) by simp
        finally have "c = v"
          using siblings_eq[OF S ev(1) kc ev(2)] by simp
        with cq qu le show ?thesis by simp
      qed
    qed
  qed
qed

lemma label_inj:
  assumes "struct_inv s g" "u \<in> live g" "v \<in> live g" "dep s g u = dep s g v"
    "agree (tree_text s) (hpos g u) (hpos g v) (dep s g u)"
  shows "u = v"
proof (rule ccontr)
  assume "u \<noteq> v"
  from prefix_anc[OF assms(1,2,3) _ assms(5)] assms(4) have "anc s g u v" by simp
  from anc_child[OF assms(1) this \<open>u \<noteq> v\<close>] obtain k c where
    "kid s u k = Some c" "anc s g c v" by blast
  with kid_dep(1)[OF assms(1,2)] anc_prefix[OF assms(1)] assms(4) show False by force
qed

text \<open>
  The descent: when the path label of \<open>u\<close> is a proper prefix of the path label of
  \<open>v\<close>, \<open>u\<close> has a child for the next character, and \<open>v\<close> is below that child.
\<close>

lemma descent:
  assumes S: "struct_inv s g" and "u \<in> live g" "v \<in> live g" "dep s g u < dep s g v"
    "agree (tree_text s) (hpos g u) (hpos g v) (dep s g u)"
  shows "\<exists>c. kid s u (charToIndex (tch (tree_text s) (hpos g v + dep s g u))) = Some c
            \<and> anc s g c v"
proof -
  from prefix_anc[OF S assms(2,3) _ assms(5)] assms(4) have a: "anc s g u v" by simp
  have "u \<noteq> v" using assms(4) by auto
  from anc_child[OF S a this] obtain k c where
    kc: "kid s u k = Some c" and acv: "anc s g c v" by blast
  note kd = kid_dep[OF S assms(2) kc]
  note cv = anc_prefix[OF S acv]
  have "tch (tree_text s) (hpos g c + dep s g u) = tch (tree_text s) (hpos g v + dep s g u)"
    using agreeD[OF conjunct2[OF cv] dep_nonneg[OF S assms(2)] kd(1)] .
  with kd(4) kc acv show ?thesis by auto
qed

section \<open>The invariants of the construction\<close>

definition leaf_inv :: "suffix_tree \<Rightarrow> ghost \<Rightarrow> int \<Rightarrow> bool" where
  "leaf_inv s g j \<longleftrightarrow>
     (\<forall>v \<in> live g. v \<noteq> root s \<longrightarrow> (nend s v = None \<longleftrightarrow> (\<forall>k. kid s v k = None))) \<and>
     (\<forall>v \<in> live g. v \<noteq> root s \<longrightarrow> nend s v = None \<longrightarrow> hpos g v < j) \<and>
     (\<forall>a. 0 \<le> a \<and> a < j \<longrightarrow> (\<exists>v \<in> live g. v \<noteq> root s \<and> nend s v = None \<and> hpos g v = a)) \<and>
     (\<forall>v \<in> live g. v \<noteq> root s \<longrightarrow> (\<forall>e. nend s v = Some e \<longrightarrow>
        e < leafEnd s \<and> (\<exists>k1 k2. k1 \<noteq> k2 \<and> kid s v k1 \<noteq> None \<and> kid s v k2 \<noteq> None)))"

lemma leaf_invD:
  assumes "leaf_inv s g j"
  shows "v \<in> live g \<Longrightarrow> v \<noteq> root s \<Longrightarrow> (nend s v = None) = (\<forall>k. kid s v k = None)"
    "v \<in> live g \<Longrightarrow> v \<noteq> root s \<Longrightarrow> nend s v = None \<Longrightarrow> hpos g v < j"
    "0 \<le> a \<Longrightarrow> a < j \<Longrightarrow> \<exists>v \<in> live g. v \<noteq> root s \<and> nend s v = None \<and> hpos g v = a"
    "v \<in> live g \<Longrightarrow> v \<noteq> root s \<Longrightarrow> nend s v = Some e \<Longrightarrow> e < leafEnd s"
    "v \<in> live g \<Longrightarrow> v \<noteq> root s \<Longrightarrow> nend s v = Some e
       \<Longrightarrow> \<exists>k1 k2. k1 \<noteq> k2 \<and> kid s v k1 \<noteq> None \<and> kid s v k2 \<noteq> None"
  using assms unfolding leaf_inv_def by blast+

lemma leaf_invI:
  assumes "\<And>v. v \<in> live g \<Longrightarrow> v \<noteq> root s \<Longrightarrow> (nend s v = None) = (\<forall>k. kid s v k = None)"
    "\<And>v. v \<in> live g \<Longrightarrow> v \<noteq> root s \<Longrightarrow> nend s v = None \<Longrightarrow> hpos g v < j"
    "\<And>a. 0 \<le> a \<Longrightarrow> a < j \<Longrightarrow> \<exists>v \<in> live g. v \<noteq> root s \<and> nend s v = None \<and> hpos g v = a"
    "\<And>v e. v \<in> live g \<Longrightarrow> v \<noteq> root s \<Longrightarrow> nend s v = Some e \<Longrightarrow> e < leafEnd s"
    "\<And>v e. v \<in> live g \<Longrightarrow> v \<noteq> root s \<Longrightarrow> nend s v = Some e
       \<Longrightarrow> \<exists>k1 k2. k1 \<noteq> k2 \<and> kid s v k1 \<noteq> None \<and> kid s v k2 \<noteq> None"
  shows "leaf_inv s g j"
  unfolding leaf_inv_def using assms by blast

definition complete :: "suffix_tree \<Rightarrow> ghost \<Rightarrow> int \<Rightarrow> bool" where
  "complete s g i \<longleftrightarrow>
     (\<forall>a. 0 \<le> a \<and> a \<le> i \<longrightarrow>
        (\<exists>v \<in> live g. i - a \<le> dep s g v \<and> agree (tree_text s) (hpos g v) a (i - a)))"

definition link_target :: "suffix_tree \<Rightarrow> nat \<Rightarrow> nat" where
  "link_target s v = (case slink s v of Some l \<Rightarrow> l | None \<Rightarrow> root s)"

definition link_ok :: "suffix_tree \<Rightarrow> ghost \<Rightarrow> nat \<Rightarrow> bool" where
  "link_ok s g v \<longleftrightarrow>
     link_target s v \<in> live g \<and> nend s (link_target s v) \<noteq> None \<and>
     dep s g (link_target s v) = dep s g v - 1 \<and>
     agree (tree_text s) (hpos g (link_target s v)) (hpos g v + 1) (dep s g v - 1)"

definition link_inv :: "suffix_tree \<Rightarrow> ghost \<Rightarrow> nat option \<Rightarrow> bool" where
  "link_inv s g pend \<longleftrightarrow>
     (\<forall>v \<in> live g. v \<noteq> root s \<longrightarrow> nend s v \<noteq> None \<longrightarrow> Some v \<noteq> pend \<longrightarrow> link_ok s g v)"

definition pend_inv :: "suffix_tree \<Rightarrow> ghost \<Rightarrow> int \<Rightarrow> bool" where
  "pend_inv s g i \<longleftrightarrow>
     (\<forall>v. lastCreatedNode s = Some v \<longrightarrow>
        v \<in> live g \<and> v \<noteq> root s \<and> nend s v \<noteq> None \<and> slink s v = None \<and>
        dep s g v = remainingSuffixCount s \<and>
        agree (tree_text s) (hpos g v) (i - remainingSuffixCount s) (remainingSuffixCount s))"

text \<open>
  The active point stands for the text from \<open>e - len\<close> to \<open>e\<close> (excluded): the path
  label of the active node is its beginning, \<open>activeLength\<close> characters are left.
\<close>

definition ap_inv :: "suffix_tree \<Rightarrow> ghost \<Rightarrow> int \<Rightarrow> int \<Rightarrow> bool" where
  "ap_inv s g e len \<longleftrightarrow>
     activeNode s \<in> live g \<and> nend s (activeNode s) \<noteq> None \<and>
     0 \<le> activeLength s \<and> dep s g (activeNode s) + activeLength s = len \<and>
     agree (tree_text s) (hpos g (activeNode s)) (e - len) (dep s g (activeNode s)) \<and>
     (0 < activeLength s \<longrightarrow> activeEdge s = e - activeLength s)"

lemma ap_invI:
  assumes "activeNode s \<in> live g" "nend s (activeNode s) \<noteq> None" "0 \<le> activeLength s"
    "dep s g (activeNode s) + activeLength s = len"
    "agree (tree_text s) (hpos g (activeNode s)) j (dep s g (activeNode s))" "j = e - len"
    "0 < activeLength s \<Longrightarrow> activeEdge s = e - activeLength s"
  shows "ap_inv s g e len"
  using assms by (simp add: ap_inv_def)

definition loop_inv :: "suffix_tree \<Rightarrow> ghost \<Rightarrow> int \<Rightarrow> bool" where
  "loop_inv s g i \<longleftrightarrow>
     struct_inv s g \<and> inj_on charToIndex (set (tree_text s)) \<and>
     leafEnd s = i \<and> 0 \<le> i \<and>
     0 \<le> remainingSuffixCount s \<and> remainingSuffixCount s \<le> i + 1 \<and>
     leaf_inv s g (i - remainingSuffixCount s + 1) \<and> complete s g i \<and>
     link_inv s g (lastCreatedNode s) \<and> pend_inv s g i \<and>
     (if remainingSuffixCount s = 0 then activeNode s = root s \<and> activeLength s = 0
      else ap_inv s g i (remainingSuffixCount s - 1))"

definition post_inv :: "suffix_tree \<Rightarrow> ghost \<Rightarrow> int \<Rightarrow> bool" where
  "post_inv s g i \<longleftrightarrow>
     struct_inv s g \<and> inj_on charToIndex (set (tree_text s)) \<and>
     leafEnd s = i \<and> - 1 \<le> i \<and>
     0 \<le> remainingSuffixCount s \<and> remainingSuffixCount s \<le> i + 1 \<and>
     leaf_inv s g (i + 1 - remainingSuffixCount s) \<and> complete s g (i + 1) \<and>
     link_inv s g None \<and> ap_inv s g (i + 1) (remainingSuffixCount s)"

section \<open>The effect of the store operations\<close>

lemma alloc_fields [simp]:
  "node_count (alloc n s) = Suc (node_count s)" "tree_text (alloc n s) = tree_text s"
  "root (alloc n s) = root s" "activeNode (alloc n s) = activeNode s"
  "activeEdge (alloc n s) = activeEdge s" "activeLength (alloc n s) = activeLength s"
  "remainingSuffixCount (alloc n s) = remainingSuffixCount s" "leafEnd (alloc n s) = leafEnd s"
  "lastCreatedNode (alloc n s) = lastCreatedNode s"
  by (simp_all add: alloc_def)

lemma upd_node_fields [simp]:
  "node_count (upd_node v f s) = node_count s" "tree_text (upd_node v f s) = tree_text s"
  "root (upd_node v f s) = root s" "activeNode (upd_node v f s) = activeNode s"
  "activeEdge (upd_node v f s) = activeEdge s" "activeLength (upd_node v f s) = activeLength s"
  "remainingSuffixCount (upd_node v f s) = remainingSuffixCount s"
  "leafEnd (upd_node v f s) = leafEnd s" "lastCreatedNode (upd_node v f s) = lastCreatedNode s"
  by (simp_all add: upd_node_def)

lemma set_child_fields [simp]:
  "node_count (set_child v k c s) = node_count s" "tree_text (set_child v k c s) = tree_text s"
  "root (set_child v k c s) = root s" "activeNode (set_child v k c s) = activeNode s"
  "activeEdge (set_child v k c s) = activeEdge s" "activeLength (set_child v k c s) = activeLength s"
  "remainingSuffixCount (set_child v k c s) = remainingSuffixCount s"
  "leafEnd (set_child v k c s) = leafEnd s" "lastCreatedNode (set_child v k c s) = lastCreatedNode s"
  by (simp_all add: set_child_def)

lemma node_at_alloc [simp]:
  "node_at (alloc n s) v = (if v = node_count s then n else node_at s v)"
  by (simp add: alloc_def node_at_def)

lemma node_at_upd_node [simp]:
  "node_at (upd_node u f s) v = (if v = u then f (node_at s u) else node_at s v)"
  by (simp add: upd_node_def node_at_def)

lemma node_at_set_child [simp]:
  "node_at (set_child u k c s) v =
     (if v = u then (node_at s u)\<lparr>children := (children (node_at s u))(k \<mapsto> c)\<rparr> else node_at s v)"
  by (simp add: set_child_def)

lemma node_at_fields [simp]:
  "node_at (s\<lparr>activeNode := a\<rparr>) = node_at s"
  "node_at (s\<lparr>activeEdge := b\<rparr>) = node_at s"
  "node_at (s\<lparr>activeLength := c\<rparr>) = node_at s"
  "node_at (s\<lparr>remainingSuffixCount := d\<rparr>) = node_at s"
  "node_at (s\<lparr>leafEnd := e\<rparr>) = node_at s"
  "node_at (s\<lparr>lastCreatedNode := f\<rparr>) = node_at s"
  "node_at (s\<lparr>steps := h\<rparr>) = node_at s"
  by (simp_all add: node_at_def fun_eq_iff)

lemmas acc_defs = nstart_def nend_def kid_def slink_def

lemma acc_fold:
  "start (node_at s v) = nstart s v" "endv (node_at s v) = nend s v"
  "children (node_at s v) = kid s v" "suffixLink (node_at s v) = slink s v"
  by (simp_all add: acc_defs fun_eq_iff)

lemma acc_alloc:
  "nstart (alloc n s) = (nstart s)(node_count s := start n)"
  "nend (alloc n s) = (nend s)(node_count s := endv n)"
  "kid (alloc n s) = (kid s)(node_count s := children n)"
  "slink (alloc n s) = (slink s)(node_count s := suffixLink n)"
  by (simp_all add: acc_defs fun_eq_iff)

lemma acc_set_child:
  "nstart (set_child v k c s) = nstart s"
  "nend (set_child v k c s) = nend s"
  "kid (set_child v k c s) = (kid s)(v := (kid s v)(k \<mapsto> c))"
  "slink (set_child v k c s) = slink s"
  by (simp_all add: acc_defs fun_eq_iff)

lemma acc_upd_start:
  "nstart (upd_node v (\<lambda>n. n\<lparr>start := f n\<rparr>) s) = (nstart s)(v := f (node_at s v))"
  "nend (upd_node v (\<lambda>n. n\<lparr>start := f n\<rparr>) s) = nend s"
  "kid (upd_node v (\<lambda>n. n\<lparr>start := f n\<rparr>) s) = kid s"
  "slink (upd_node v (\<lambda>n. n\<lparr>start := f n\<rparr>) s) = slink s"
  by (simp_all add: acc_defs fun_eq_iff)

lemma acc_upd_link:
  "nstart (upd_node v (\<lambda>n. n\<lparr>suffixLink := l\<rparr>) s) = nstart s"
  "nend (upd_node v (\<lambda>n. n\<lparr>suffixLink := l\<rparr>) s) = nend s"
  "kid (upd_node v (\<lambda>n. n\<lparr>suffixLink := l\<rparr>) s) = kid s"
  "slink (upd_node v (\<lambda>n. n\<lparr>suffixLink := l\<rparr>) s) = (slink s)(v := l)"
  by (simp_all add: acc_defs fun_eq_iff)

lemma acc_fields:
  "nstart (s\<lparr>activeNode := a\<rparr>) = nstart s" "nend (s\<lparr>activeNode := a\<rparr>) = nend s"
  "kid (s\<lparr>activeNode := a\<rparr>) = kid s" "slink (s\<lparr>activeNode := a\<rparr>) = slink s"
  "nstart (s\<lparr>activeEdge := b\<rparr>) = nstart s" "nend (s\<lparr>activeEdge := b\<rparr>) = nend s"
  "kid (s\<lparr>activeEdge := b\<rparr>) = kid s" "slink (s\<lparr>activeEdge := b\<rparr>) = slink s"
  "nstart (s\<lparr>activeLength := c\<rparr>) = nstart s" "nend (s\<lparr>activeLength := c\<rparr>) = nend s"
  "kid (s\<lparr>activeLength := c\<rparr>) = kid s" "slink (s\<lparr>activeLength := c\<rparr>) = slink s"
  "nstart (s\<lparr>remainingSuffixCount := d\<rparr>) = nstart s"
  "nend (s\<lparr>remainingSuffixCount := d\<rparr>) = nend s"
  "kid (s\<lparr>remainingSuffixCount := d\<rparr>) = kid s"
  "slink (s\<lparr>remainingSuffixCount := d\<rparr>) = slink s"
  "nstart (s\<lparr>leafEnd := e\<rparr>) = nstart s" "nend (s\<lparr>leafEnd := e\<rparr>) = nend s"
  "kid (s\<lparr>leafEnd := e\<rparr>) = kid s" "slink (s\<lparr>leafEnd := e\<rparr>) = slink s"
  "nstart (s\<lparr>lastCreatedNode := l\<rparr>) = nstart s" "nend (s\<lparr>lastCreatedNode := l\<rparr>) = nend s"
  "kid (s\<lparr>lastCreatedNode := l\<rparr>) = kid s" "slink (s\<lparr>lastCreatedNode := l\<rparr>) = slink s"
  "nstart (s\<lparr>steps := h\<rparr>) = nstart s" "nend (s\<lparr>steps := h\<rparr>) = nend s"
  "kid (s\<lparr>steps := h\<rparr>) = kid s" "slink (s\<lparr>steps := h\<rparr>) = slink s"
  by (simp_all add: acc_defs fun_eq_iff)

lemmas acc_simps = acc_alloc acc_set_child acc_upd_start acc_upd_link acc_fields

lemma new_Node_sel [simp]:
  "start (new_Node a e) = a" "endv (new_Node a e) = e" "children (new_Node a e) = (\<lambda>_. None)"
  "suffixLink (new_Node a e) = None" "suffixIndex (new_Node a e) = - 1"
  by (simp_all add: new_Node_def)

text \<open>The state after the new leaf of rule 2.\<close>

lemma newLeaf_fields:
  "node_count (newLeaf pos k s) = Suc (node_count s)"
  "tree_text (newLeaf pos k s) = tree_text s" "root (newLeaf pos k s) = root s"
  "activeNode (newLeaf pos k s) = activeNode s" "activeEdge (newLeaf pos k s) = activeEdge s"
  "activeLength (newLeaf pos k s) = activeLength s"
  "remainingSuffixCount (newLeaf pos k s) = remainingSuffixCount s"
  "leafEnd (newLeaf pos k s) = leafEnd s" "lastCreatedNode (newLeaf pos k s) = None"
  unfolding newLeaf_def Let_def by (simp_all split: option.splits)

lemma newLeaf_acc:
  "nstart (newLeaf pos k s) = (nstart s)(node_count s := pos)"
  "nend (newLeaf pos k s) = (nend s)(node_count s := None)"
  "kid (newLeaf pos k s) = (kid s)(node_count s := (\<lambda>_. None),
      activeNode s := (((kid s)(node_count s := (\<lambda>_. None))) (activeNode s))(k \<mapsto> node_count s))"
  "slink (newLeaf pos k s) = (case lastCreatedNode s of
       None \<Rightarrow> (slink s)(node_count s := None)
     | Some lc \<Rightarrow> (slink s)(node_count s := None, lc := Some (activeNode s)))"
  unfolding newLeaf_def Let_def by (simp_all add: acc_simps split: option.splits)

text \<open>The state after the break of rule 3.\<close>

lemma showStopper_fields:
  "node_count (showStopper s) = node_count s"
  "tree_text (showStopper s) = tree_text s" "root (showStopper s) = root s"
  "activeNode (showStopper s) = activeNode s" "activeEdge (showStopper s) = activeEdge s"
  "activeLength (showStopper s) = activeLength s + 1"
  "remainingSuffixCount (showStopper s) = remainingSuffixCount s"
  "leafEnd (showStopper s) = leafEnd s"
  unfolding showStopper_def Let_def by (simp_all split: option.splits)

lemma showStopper_acc:
  "nstart (showStopper s) = nstart s" "nend (showStopper s) = nend s"
  "kid (showStopper s) = kid s"
  "slink (showStopper s) = (case lastCreatedNode s of
       None \<Rightarrow> slink s
     | Some lc \<Rightarrow> if activeNode s \<noteq> root s
                  then (slink s)(lc := Some (activeNode s)) else slink s)"
  unfolding showStopper_def Let_def by (simp_all add: acc_simps split: option.splits)

text \<open>The state after the split of rule 2.\<close>

definition split_state :: "int \<Rightarrow> int \<Rightarrow> nat \<Rightarrow> suffix_tree \<Rightarrow> suffix_tree" where
  "split_state pos k nx s =
     (let sp = node_count s; lf = Suc (node_count s);
          s1 = alloc (new_Node (nstart s nx) (Some (nstart s nx + activeLength s - 1))) s;
          s2 = set_child (activeNode s) k sp s1;
          s3 = set_child sp (charToIndex (tch (tree_text s) pos)) lf (alloc (new_Node pos None) s2);
          s4 = upd_node nx (\<lambda>n. n\<lparr>start := start n + activeLength s\<rparr>) s3;
          s5 = set_child sp (charToIndex (tch (tree_text s) (nstart s nx + activeLength s))) nx s4;
          s6 = (case lastCreatedNode s of
                  Some lc \<Rightarrow> upd_node lc (\<lambda>n. n\<lparr>suffixLink := Some sp\<rparr>) s5
                | None \<Rightarrow> s5)
      in s6\<lparr>lastCreatedNode := Some sp\<rparr>)"

lemma splitEdge_eq:
  assumes "nx < node_count s" "nx \<noteq> activeNode s"
    "0 \<le> pos" "pos < int (length (tree_text s))"
    "0 \<le> nstart s nx + activeLength s" "nstart s nx + activeLength s < int (length (tree_text s))"
  shows "splitEdge pos k nx s = Inr (split_state pos k nx s)"
proof -
  have 1: "charAt (tree_text s) pos = Some (tch (tree_text s) pos)"
    using assms by (simp add: charAt_tch)
  have 2: "charAt (tree_text s) (start (node_at s nx) + activeLength s)
    = Some (tch (tree_text s) (start (node_at s nx) + activeLength s))"
    using assms by (simp add: charAt_tch nstart_def)
  show ?thesis
    unfolding splitEdge_def split_state_def
    using assms(1,2) by (simp add: 1 2 nstart_def Let_def)
qed

lemma split_state_fields:
  "node_count (split_state pos k nx s) = Suc (Suc (node_count s))"
  "tree_text (split_state pos k nx s) = tree_text s"
  "root (split_state pos k nx s) = root s"
  "activeNode (split_state pos k nx s) = activeNode s"
  "activeEdge (split_state pos k nx s) = activeEdge s"
  "activeLength (split_state pos k nx s) = activeLength s"
  "remainingSuffixCount (split_state pos k nx s) = remainingSuffixCount s"
  "leafEnd (split_state pos k nx s) = leafEnd s"
  "lastCreatedNode (split_state pos k nx s) = Some (node_count s)"
  unfolding split_state_def Let_def by (simp_all split: option.splits)

lemma split_state_acc:
  assumes "nx < node_count s" "activeNode s < node_count s"
  shows "nstart (split_state pos k nx s) =
      (nstart s)(node_count s := nstart s nx, Suc (node_count s) := pos,
                 nx := nstart s nx + activeLength s)"
    "nend (split_state pos k nx s) =
      (nend s)(node_count s := Some (nstart s nx + activeLength s - 1),
               Suc (node_count s) := None)"
    "kid (split_state pos k nx s) =
      (kid s)(node_count s :=
                (Map.empty(charToIndex (tch (tree_text s) pos) \<mapsto> Suc (node_count s)))
                  (charToIndex (tch (tree_text s) (nstart s nx + activeLength s)) \<mapsto> nx),
              activeNode s := (kid s (activeNode s))(k \<mapsto> node_count s),
              Suc (node_count s) := (\<lambda>_. None))"
    "slink (split_state pos k nx s) =
      (case lastCreatedNode s of
         None \<Rightarrow> (slink s)(node_count s := None, Suc (node_count s) := None)
       | Some lc \<Rightarrow> (slink s)(node_count s := None, Suc (node_count s) := None,
                               lc := Some (node_count s)))"
proof -
  have ne: "nx \<noteq> node_count s" "nx \<noteq> Suc (node_count s)"
    "activeNode s \<noteq> node_count s" "activeNode s \<noteq> Suc (node_count s)"
    using assms by auto
  show "nstart (split_state pos k nx s) =
      (nstart s)(node_count s := nstart s nx, Suc (node_count s) := pos,
                 nx := nstart s nx + activeLength s)"
    unfolding split_state_def Let_def using ne
    by (cases "lastCreatedNode s") (simp_all add: acc_simps acc_fold)
  show "nend (split_state pos k nx s) =
      (nend s)(node_count s := Some (nstart s nx + activeLength s - 1),
               Suc (node_count s) := None)"
    unfolding split_state_def Let_def
    by (cases "lastCreatedNode s") (simp_all add: acc_simps acc_fold)
  show "kid (split_state pos k nx s) =
      (kid s)(node_count s :=
                (Map.empty(charToIndex (tch (tree_text s) pos) \<mapsto> Suc (node_count s)))
                  (charToIndex (tch (tree_text s) (nstart s nx + activeLength s)) \<mapsto> nx),
              activeNode s := (kid s (activeNode s))(k \<mapsto> node_count s),
              Suc (node_count s) := (\<lambda>_. None))"
    unfolding split_state_def Let_def using ne
    by (cases "lastCreatedNode s") (simp_all add: acc_simps acc_fold fun_upd_twist)
  show "slink (split_state pos k nx s) =
      (case lastCreatedNode s of
         None \<Rightarrow> (slink s)(node_count s := None, Suc (node_count s) := None)
       | Some lc \<Rightarrow> (slink s)(node_count s := None, Suc (node_count s) := None,
                               lc := Some (node_count s)))"
    unfolding split_state_def Let_def
    by (cases "lastCreatedNode s") (simp_all add: acc_simps acc_fold)
qed

lemma setActivePoint_effect:
  assumes s': "s' = setActivePoint pos s"
  shows "node_count s' = node_count s" "nstart s' = nstart s" "nend s' = nend s" "kid s' = kid s"
    "slink s' = slink s" "tree_text s' = tree_text s" "root s' = root s" "leafEnd s' = leafEnd s"
    "lastCreatedNode s' = lastCreatedNode s"
    "remainingSuffixCount s' = remainingSuffixCount s - 1"
    "activeNode s' = (if activeNode s = root s then root s else link_target s (activeNode s))"
    "activeLength s' = (if activeNode s = root s \<and> 0 < activeLength s
                        then activeLength s - 1 else activeLength s)"
    "activeEdge s' = (if activeNode s = root s \<and> 0 < activeLength s
                      then pos - (remainingSuffixCount s - 1) + 1 else activeEdge s)"
  unfolding s' setActivePoint_def Let_def
  by (auto simp: acc_simps acc_fold link_target_def split: option.splits)

section \<open>States with the same tree\<close>

definition same_tree :: "suffix_tree \<Rightarrow> suffix_tree \<Rightarrow> ghost \<Rightarrow> bool" where
  "same_tree s s' g \<longleftrightarrow>
     tree_text s' = tree_text s \<and> root s' = root s \<and> leafEnd s' = leafEnd s \<and>
     node_count s \<le> node_count s' \<and>
     (\<forall>v \<in> live g. nstart s' v = nstart s v \<and> nend s' v = nend s v \<and> kid s' v = kid s v)"

lemma same_tree_refl [simp]: "same_tree s s g"
  by (simp add: same_tree_def)

lemma same_tree_acc:
  assumes "same_tree s s' g" "v \<in> live g"
  shows "nstart s' v = nstart s v" "nend s' v = nend s v" "kid s' v = kid s v"
    "eend s' v = eend s v" "dep s' g v = dep s g v" "first_key s' v = first_key s v"
  using assms by (auto simp: same_tree_def eend_def dep_def first_key_def split: option.splits)

lemma same_tree_fields:
  assumes "same_tree s s' g"
  shows "tree_text s' = tree_text s" "root s' = root s" "leafEnd s' = leafEnd s"
  using assms by (simp_all add: same_tree_def)

lemma same_tree_struct:
  assumes T: "same_tree s s' g" and S: "struct_inv s g"
  shows "struct_inv s' g"
proof -
  note f = same_tree_fields[OF T]
  have k: "kids_ok s' g v" if "v \<in> live g" for v
  proof -
    from S that have "kids_ok s g v" by (simp add: struct_inv_def)
    then show ?thesis
      unfolding kids_ok_def using same_tree_acc[OF T] that f by simp
  qed
  have e: "edge_ok s' g v" if "v \<in> live g" "v \<noteq> root s'" for v
  proof -
    from S that f have "edge_ok s g v" by (simp add: struct_inv_def)
    then show ?thesis
      unfolding edge_ok_def using same_tree_acc[OF T] that f by simp
  qed
  from S T have "\<forall>v \<in> live g. v < node_count s'"
    by (fastforce simp: struct_inv_def same_tree_def)
  with S k e f same_tree_acc(2)[OF T] show ?thesis
    by (simp add: struct_inv_def)
qed

lemma same_tree_leaf:
  assumes T: "same_tree s s' g" and "leaf_inv s g j"
  shows "leaf_inv s' g j"
  using assms(2) unfolding leaf_inv_def
  using same_tree_acc[OF T] same_tree_fields[OF T] by simp

lemma same_tree_complete:
  assumes T: "same_tree s s' g" and "complete s g i"
  shows "complete s' g i"
  using assms(2) unfolding complete_def
  using same_tree_acc[OF T] same_tree_fields[OF T] by simp

lemma same_tree_link_ok:
  assumes T: "same_tree s s' g" and "link_ok s g v" "v \<in> live g"
    "link_target s' v = link_target s v"
  shows "link_ok s' g v"
  using assms(2,3,4) unfolding link_ok_def
  using same_tree_acc[OF T] same_tree_fields[OF T] by auto

section \<open>Between the phases\<close>

lemma internal_parent:
  assumes S: "struct_inv s g" and L: "leaf_inv s g j" and "v \<in> live g" "kid s v k = Some c"
  shows "nend s v \<noteq> None"
proof (cases "v = root s")
  case True
  with struct_rootD(2)[OF S] show ?thesis by simp
next
  case False
  with L assms(3,4) show ?thesis by (auto simp: leaf_inv_def)
qed

lemma par_internal:
  assumes S: "struct_inv s g" and L: "leaf_inv s g j" and "v \<in> live g" "v \<noteq> root s"
  shows "nend s (par g v) \<noteq> None"
  using internal_parent[OF S L struct_edgeD(1,2)[OF S assms(3,4)]] .

text \<open>The beginning of \<open>extendSuffixTree\<close>: the leaves grow by one character.\<close>

lemma phase_start:
  assumes P: "post_inv s g (i - 1)" and i: "i < int (length (tree_text s))"
  defines "s' \<equiv> s\<lparr>leafEnd := i, remainingSuffixCount := remainingSuffixCount s + 1,
                    lastCreatedNode := None\<rparr>"
  shows "loop_inv s' g i"
proof -
  from P have S: "struct_inv s g" and inj: "inj_on charToIndex (set (tree_text s))"
    and le: "leafEnd s = i - 1" and i0: "0 \<le> i"
    and r: "0 \<le> remainingSuffixCount s" "remainingSuffixCount s \<le> i"
    and L: "leaf_inv s g (i - remainingSuffixCount s)" and C: "complete s g i"
    and K: "link_inv s g None" and A: "ap_inv s g i (remainingSuffixCount s)"
    by (simp_all add: post_inv_def)
  have acc: "nstart s' = nstart s" "nend s' = nend s" "kid s' = kid s" "slink s' = slink s"
    by (simp_all add: s'_def acc_simps)
  have f: "tree_text s' = tree_text s" "root s' = root s" "node_count s' = node_count s"
    "leafEnd s' = i" "activeNode s' = activeNode s" "activeLength s' = activeLength s"
    "activeEdge s' = activeEdge s" "remainingSuffixCount s' = remainingSuffixCount s + 1"
    "lastCreatedNode s' = None"
    by (simp_all add: s'_def)
  have ee: "eend s' v = (if nend s v = None then i else eend s v)" for v
    by (simp add: eend_def acc f split: option.splits)
  have eeI: "nend s v \<noteq> None \<Longrightarrow> eend s' v = eend s v" for v
    by (auto simp: ee)
  have depI: "nend s v \<noteq> None \<Longrightarrow> dep s' g v = dep s g v" for v
    by (simp add: dep_def eeI)
  have dep_le: "dep s g v \<le> dep s' g v" if "v \<in> live g" for v
  proof (cases "v = root s")
    case True
    with struct_rootD(2)[OF S] show ?thesis by (simp add: depI)
  next
    case False
    from struct_edgeD(7)[OF S that False] le show ?thesis
      by (simp add: dep_def ee)
  qed
  have fk: "first_key s' v = first_key s v" for v
    by (simp add: first_key_def acc f)
  have S': "struct_inv s' g"
  proof -
    have k: "kids_ok s' g v" if "v \<in> live g" for v
      using S that by (simp add: struct_inv_def kids_ok_def acc f fk)
    have e: "edge_ok s' g v" if v: "v \<in> live g" "v \<noteq> root s" for v
    proof -
      note ev = struct_edgeD[OF S v]
      have d: "dep s' g (par g v) = dep s g (par g v)"
        by (rule depI[OF par_internal[OF S L v]])
      have "eend s v \<le> eend s' v" "eend s' v \<le> i"
        using ev(7) le by (simp_all add: ee)
      with ev d show ?thesis
        by (simp add: edge_ok_def acc f fk)
    qed
    from S k e i i0 show ?thesis
      by (simp add: struct_inv_def acc f)
  qed
  have L': "leaf_inv s' g (i - remainingSuffixCount s' + 1)"
    using L le by (auto simp: leaf_inv_def acc f)
  have C': "complete s' g i"
    unfolding complete_def
  proof (intro allI impI)
    fix a assume "0 \<le> a \<and> a \<le> i"
    with C obtain v where "v \<in> live g" "i - a \<le> dep s g v"
      "agree (tree_text s) (hpos g v) a (i - a)"
      by (auto simp: complete_def)
    with dep_le[of v] show "\<exists>v\<in>live g. i - a \<le> dep s' g v \<and> agree (tree_text s') (hpos g v) a (i - a)"
      by (intro bexI[of _ v]) (auto simp: f)
  qed
  have K': "link_inv s' g None"
    unfolding link_inv_def
  proof (intro ballI impI)
    fix v assume v: "v \<in> live g" "v \<noteq> root s'" "nend s' v \<noteq> None"
    with K have "link_ok s g v" by (simp add: link_inv_def acc f)
    moreover have "link_target s' v = link_target s v"
      by (simp add: link_target_def acc f cong: option.case_cong)
    ultimately show "link_ok s' g v"
      using v by (auto simp: link_ok_def acc f depI)
  qed
  have A': "ap_inv s' g i (remainingSuffixCount s)"
    using A by (simp add: ap_inv_def acc f depI)
  from S' inj i0 r L' C' K' A' show ?thesis
    by (simp add: loop_inv_def f pend_inv_def)
qed

text \<open>The end of the loop when nothing remains.\<close>

lemma loop_exit:
  assumes P: "loop_inv s g i" and r: "remainingSuffixCount s = 0"
  shows "post_inv s g i"
proof -
  from P r have S: "struct_inv s g" and inj: "inj_on charToIndex (set (tree_text s))"
    and le: "leafEnd s = i" and i0: "0 \<le> i"
    and L: "leaf_inv s g (i + 1)" and C: "complete s g i"
    and K: "link_inv s g (lastCreatedNode s)" and Q: "pend_inv s g i"
    and A: "activeNode s = root s" "activeLength s = 0"
    by (simp_all add: loop_inv_def)
  have "lastCreatedNode s = None"
  proof (cases "lastCreatedNode s")
    case (Some v)
    with Q r have "v \<in> live g" "v \<noteq> root s" "dep s g v = 0" by (simp_all add: pend_inv_def)
    with dep_pos[OF S] show ?thesis by force
  qed simp
  with K have K': "link_inv s g None" by simp
  have C': "complete s g (i + 1)"
    unfolding complete_def
  proof (intro allI impI)
    fix a assume a: "0 \<le> a \<and> a \<le> i + 1"
    show "\<exists>v\<in>live g. i + 1 - a \<le> dep s g v \<and> agree (tree_text s) (hpos g v) a (i + 1 - a)"
    proof (cases "a = i + 1")
      case True
      with struct_rootD(1,4)[OF S] show ?thesis by (intro bexI[of _ "root s"]) auto
    next
      case False
      with a L obtain v where "v \<in> live g" "nend s v = None" "hpos g v = a"
        by (auto simp: leaf_inv_def)
      then show ?thesis
        by (intro bexI[of _ v]) (auto simp: dep_def eend_def le)
    qed
  qed
  have "ap_inv s g (i + 1) 0"
    using A struct_rootD[OF S] by (simp add: ap_inv_def)
  with S inj le i0 L C' K' r show ?thesis
    by (simp add: post_inv_def)
qed

section \<open>The active point\<close>

definition fix_edge :: "int \<Rightarrow> suffix_tree \<Rightarrow> suffix_tree" where
  "fix_edge pos s = (if activeLength s = 0 then s\<lparr>activeEdge := pos\<rparr> else s)"

lemma fix_edge_fields [simp]:
  "node_count (fix_edge pos s) = node_count s" "tree_text (fix_edge pos s) = tree_text s"
  "root (fix_edge pos s) = root s" "activeNode (fix_edge pos s) = activeNode s"
  "activeLength (fix_edge pos s) = activeLength s"
  "remainingSuffixCount (fix_edge pos s) = remainingSuffixCount s"
  "leafEnd (fix_edge pos s) = leafEnd s" "lastCreatedNode (fix_edge pos s) = lastCreatedNode s"
  "nstart (fix_edge pos s) = nstart s" "nend (fix_edge pos s) = nend s"
  "kid (fix_edge pos s) = kid s" "slink (fix_edge pos s) = slink s"
  "node_at (fix_edge pos s) = node_at s"
  by (simp_all add: fix_edge_def acc_simps)

lemma fix_edge_derived [simp]:
  "eend (fix_edge pos s) = eend s" "dep (fix_edge pos s) = dep s"
  "first_key (fix_edge pos s) = first_key s" "link_target (fix_edge pos s) = link_target s"
  by (simp_all add: fun_eq_iff eend_def dep_def first_key_def link_target_def
      cong: option.case_cong)

lemma fix_edge_inv_simps [simp]:
  "struct_inv (fix_edge pos s) g = struct_inv s g"
  "leaf_inv (fix_edge pos s) g j = leaf_inv s g j"
  "complete (fix_edge pos s) g i = complete s g i"
  "link_inv (fix_edge pos s) g p = link_inv s g p"
  "pend_inv (fix_edge pos s) g i = pend_inv s g i"
  by (simp_all add: struct_inv_def kids_ok_def edge_ok_def leaf_inv_def complete_def
      link_inv_def link_ok_def pend_inv_def)

lemma fix_edge_loop:
  assumes "loop_inv s g i" "1 \<le> remainingSuffixCount s"
  shows "loop_inv (fix_edge i s) g i" "activeEdge (fix_edge i s) = i - activeLength s"
proof -
  from assms have A: "ap_inv s g i (remainingSuffixCount s - 1)"
    by (simp add: loop_inv_def)
  show e: "activeEdge (fix_edge i s) = i - activeLength s"
    using A by (auto simp: fix_edge_def ap_inv_def)
  from A e have "ap_inv (fix_edge i s) g i (remainingSuffixCount s - 1)"
    by (simp add: ap_inv_def)
  with assms show "loop_inv (fix_edge i s) g i"
    by (simp add: loop_inv_def)
qed

text \<open>
  What the invariant says at the head of the loop, with \<open>j\<close> the position where the
  suffix starts that is inserted next.
\<close>

lemma loop_facts:
  assumes L: "loop_inv s g i" and r: "1 \<le> remainingSuffixCount s"
  defines "j \<equiv> i - remainingSuffixCount s + 1"
  shows "struct_inv s g" "inj_on charToIndex (set (tree_text s))" "leafEnd s = i"
    "0 \<le> j" "j \<le> i" "i < int (length (tree_text s))"
    "leaf_inv s g j" "complete s g i" "link_inv s g (lastCreatedNode s)" "pend_inv s g i"
    "activeNode s \<in> live g" "nend s (activeNode s) \<noteq> None" "0 \<le> activeLength s"
    "j + dep s g (activeNode s) + activeLength s = i"
    "agree (tree_text s) (hpos g (activeNode s)) j (dep s g (activeNode s))"
    "0 < activeLength s \<Longrightarrow> activeEdge s = i - activeLength s"
    "0 \<le> dep s g (activeNode s)"
proof -
  from L r show S: "struct_inv s g" and "inj_on charToIndex (set (tree_text s))"
    and le: "leafEnd s = i" and "leaf_inv s g j" and "complete s g i"
    and "link_inv s g (lastCreatedNode s)" and "pend_inv s g i"
    by (simp_all add: loop_inv_def j_def)
  from L r have A: "ap_inv s g i (remainingSuffixCount s - 1)"
    and r2: "remainingSuffixCount s \<le> i + 1"
    by (auto simp: loop_inv_def)
  from r r2 show "0 \<le> j" "j \<le> i" by (simp_all add: j_def)
  from struct_rootD(6)[OF S] le show "i < int (length (tree_text s))" by simp
  from A show an: "activeNode s \<in> live g" and "nend s (activeNode s) \<noteq> None"
    and "0 \<le> activeLength s"
    and "j + dep s g (activeNode s) + activeLength s = i"
    and "0 < activeLength s \<Longrightarrow> activeEdge s = i - activeLength s"
    by (auto simp: ap_inv_def j_def)
  from A have "agree (tree_text s) (hpos g (activeNode s)) (i - (remainingSuffixCount s - 1))
      (dep s g (activeNode s))"
    by (simp add: ap_inv_def)
  then show "agree (tree_text s) (hpos g (activeNode s)) j (dep s g (activeNode s))"
    by (simp add: j_def algebra_simps)
  from dep_nonneg[OF S an] show "0 \<le> dep s g (activeNode s)" .
qed

lemma active_word:
  assumes L: "loop_inv s g i" and r: "1 \<le> remainingSuffixCount s"
  defines "j \<equiv> i - remainingSuffixCount s + 1"
  shows "\<exists>u \<in> live g. i - j \<le> dep s g u \<and> agree (tree_text s) (hpos g u) j (i - j)"
proof -
  note F = loop_facts(4,5,8)[OF L r, folded j_def]
  from F(3) F(1,2) show ?thesis unfolding complete_def by blast
qed

lemma no_child_at_node:
  assumes L: "loop_inv s g i" and r: "1 \<le> remainingSuffixCount s"
    and n: "kid s (activeNode s) (charToIndex (tch (tree_text s) (i - activeLength s))) = None"
  shows "activeLength s = 0"
proof (rule ccontr)
  define j where "j = i - remainingSuffixCount s + 1"
  note F = loop_facts[OF L r, folded j_def]
  assume "activeLength s \<noteq> 0"
  with F(13) have p: "0 < activeLength s" by simp
  from active_word[OF L r, folded j_def] obtain u where
    u: "u \<in> live g" "i - j \<le> dep s g u" "agree (tree_text s) (hpos g u) j (i - j)"
    by blast
  have 1: "dep s g (activeNode s) < dep s g u" using u(2) F(14) p by simp
  have 2: "agree (tree_text s) (hpos g (activeNode s)) (hpos g u) (dep s g (activeNode s))"
    using agree_trans[OF F(15) agree_sym[OF u(3)] order_refl] F(14) p by simp
  from descent[OF F(1) F(11) u(1) 1 2] obtain c where
    c: "kid s (activeNode s) (charToIndex (tch (tree_text s) (hpos g u + dep s g (activeNode s))))
        = Some c" by blast
  have "tch (tree_text s) (hpos g u + dep s g (activeNode s))
      = tch (tree_text s) (j + dep s g (activeNode s))"
    using agreeD[OF u(3) F(17)] F(14) p by simp
  also have "j + dep s g (activeNode s) = i - activeLength s" using F(14) by simp
  finally show False using c n by simp
qed

lemma child_at_active:
  assumes L: "loop_inv s g i" and r: "1 \<le> remainingSuffixCount s"
    and n: "kid s (activeNode s) (charToIndex (tch (tree_text s) (i - activeLength s))) = Some nx"
  defines "j \<equiv> i - remainingSuffixCount s + 1"
  shows "nx \<in> live g" "nx \<noteq> root s" "par g nx = activeNode s"
    "dep s g (activeNode s) < dep s g nx"
    "hpos g nx + dep s g (activeNode s) = nstart s nx"
    "agree (tree_text s) (hpos g nx) j (min (dep s g nx) (i - j))"
    "dep s g nx \<le> i - j \<Longrightarrow> nend s nx \<noteq> None"
    "edgeLength (node_at s nx) (leafEnd s) = dep s g nx - dep s g (activeNode s)"
    "nx \<noteq> activeNode s" "nx < node_count s"
    "nstart s nx + activeLength s = hpos g nx + (i - j)"
    "i - j < dep s g nx \<Longrightarrow> hpos g nx < j"
proof -
  note F = loop_facts[OF L r, folded j_def]
  note k = struct_kidD[OF F(1) F(11) n]
  note kd = kid_dep[OF F(1) F(11) n]
  show nL: "nx \<in> live g" and "nx \<noteq> root s" and "par g nx = activeNode s"
    and d: "dep s g (activeNode s) < dep s g nx"
    and h: "hpos g nx + dep s g (activeNode s) = nstart s nx"
    using k kd by simp_all
  from d show "nx \<noteq> activeNode s" by auto
  from struct_fresh[OF F(1) nL] show "nx < node_count s" .
  from h F(14) show "nstart s nx + activeLength s = hpos g nx + (i - j)" by simp
  show "edgeLength (node_at s nx) (leafEnd s) = dep s g nx - dep s g (activeNode s)"
    using h by (simp add: edgeLength_eend dep_def)
  show ag: "agree (tree_text s) (hpos g nx) j (min (dep s g nx) (i - j))"
  proof (cases "activeLength s = 0")
    case True
    with F(14) d have "min (dep s g nx) (i - j) = dep s g (activeNode s)" by simp
    with agree_trans[OF agree_sym[OF kd(3)] F(15) order_refl order_refl] show ?thesis by simp
  next
    case False
    with F(13) have p: "0 < activeLength s" by simp
    from active_word[OF L r, folded j_def] obtain u where
      u: "u \<in> live g" "i - j \<le> dep s g u" "agree (tree_text s) (hpos g u) j (i - j)"
      by blast
    have 1: "dep s g (activeNode s) < dep s g u" using u(2) F(14) p by simp
    have 2: "agree (tree_text s) (hpos g (activeNode s)) (hpos g u) (dep s g (activeNode s))"
      using agree_trans[OF F(15) agree_sym[OF u(3)] order_refl] F(14) p by simp
    from descent[OF F(1) F(11) u(1) 1 2] obtain c where
      c: "kid s (activeNode s) (charToIndex (tch (tree_text s) (hpos g u + dep s g (activeNode s))))
          = Some c" and a: "anc s g c u" by blast
    have "tch (tree_text s) (hpos g u + dep s g (activeNode s))
        = tch (tree_text s) (j + dep s g (activeNode s))"
      using agreeD[OF u(3) F(17)] F(14) p by simp
    also have "j + dep s g (activeNode s) = i - activeLength s" using F(14) by simp
    finally have "c = nx" using c n by simp
    with anc_prefix[OF F(1) a]
    have "dep s g nx \<le> dep s g u" "agree (tree_text s) (hpos g nx) (hpos g u) (dep s g nx)"
      by simp_all
    from agree_trans[OF this(2) u(3), of "min (dep s g nx) (i - j)"] show ?thesis by simp
  qed
  show "hpos g nx < j" if w: "i - j < dep s g nx"
  proof (cases "nend s nx")
    case None
    with F(7) nL k(2) show ?thesis by (simp add: leaf_inv_def)
  next
    case (Some e)
    with F(7) nL k(2) have "e < leafEnd s" by (simp add: leaf_inv_def)
    with Some have "hpos g nx + dep s g nx \<le> i" by (simp add: dep_def eend_def F(3))
    with w show ?thesis by simp
  qed
  show "nend s nx \<noteq> None" if w: "dep s g nx \<le> i - j"
  proof
    assume e: "nend s nx = None"
    then have "dep s g nx = i + 1 - hpos g nx" by (simp add: dep_def eend_def F(3))
    moreover from F(7) nL k(2) e have "hpos g nx < j" by (simp add: leaf_inv_def)
    ultimately show False using w by simp
  qed
qed

section \<open>States with the same nodes\<close>

lemma acc_cong:
  assumes "nstart s' = nstart s" "nend s' = nend s" "kid s' = kid s"
    "tree_text s' = tree_text s" "root s' = root s" "leafEnd s' = leafEnd s"
    "node_count s' = node_count s"
  shows "eend s' = eend s" "dep s' = dep s" "first_key s' = first_key s"
    "struct_inv s' g = struct_inv s g" "leaf_inv s' g j = leaf_inv s g j"
    "complete s' g i = complete s g i"
    "slink s' = slink s \<Longrightarrow> link_target s' = link_target s"
    "slink s' = slink s \<Longrightarrow> link_ok s' g v = link_ok s g v"
    "slink s' = slink s \<Longrightarrow> link_inv s' g p = link_inv s g p"
proof -
  show e: "eend s' = eend s"
    by (simp add: fun_eq_iff eend_def assms cong: option.case_cong)
  show d: "dep s' = dep s"
    by (simp add: fun_eq_iff dep_def e)
  show f: "first_key s' = first_key s"
    by (simp add: fun_eq_iff first_key_def assms)
  show "struct_inv s' g = struct_inv s g"
    by (simp add: struct_inv_def kids_ok_def edge_ok_def assms e d f)
  show "leaf_inv s' g j = leaf_inv s g j"
    by (simp add: leaf_inv_def assms)
  show "complete s' g i = complete s g i"
    by (simp add: complete_def assms d)
  show t: "link_target s' = link_target s" if "slink s' = slink s"
    by (simp add: fun_eq_iff link_target_def that assms cong: option.case_cong)
  have o: "link_ok s' g w = link_ok s g w" if "slink s' = slink s" for w
    by (simp add: link_ok_def t[OF that] assms d)
  show "link_ok s' g v = link_ok s g v" if "slink s' = slink s"
    by (rule o[OF that])
  show "link_inv s' g p = link_inv s g p" if "slink s' = slink s"
    by (simp add: link_inv_def o[OF that] assms)
qed

section \<open>The end of the loop body\<close>

definition mid_inv :: "suffix_tree \<Rightarrow> ghost \<Rightarrow> int \<Rightarrow> bool" where
  "mid_inv s g i \<longleftrightarrow>
     struct_inv s g \<and> inj_on charToIndex (set (tree_text s)) \<and>
     leafEnd s = i \<and> 0 \<le> i \<and>
     1 \<le> remainingSuffixCount s \<and> remainingSuffixCount s \<le> i + 1 \<and>
     leaf_inv s g (i - remainingSuffixCount s + 2) \<and> complete s g i \<and>
     link_inv s g (lastCreatedNode s) \<and>
     (\<forall>v. lastCreatedNode s = Some v \<longrightarrow>
        v \<in> live g \<and> v \<noteq> root s \<and> nend s v \<noteq> None \<and> slink s v = None \<and>
        dep s g v = remainingSuffixCount s - 1 \<and>
        agree (tree_text s) (hpos g v) (i - remainingSuffixCount s + 1)
          (remainingSuffixCount s - 1) \<and>
        v \<noteq> activeNode s) \<and>
     ap_inv s g i (remainingSuffixCount s - 1)"

lemma setActivePoint_loop:
  assumes M: "mid_inv s g i"
  shows "loop_inv (setActivePoint i s) g i"
proof -
  define s' where "s' = setActivePoint i s"
  define r where "r = remainingSuffixCount s"
  note e = setActivePoint_effect[OF s'_def]
  from M have S: "struct_inv s g" and inj: "inj_on charToIndex (set (tree_text s))"
    and le: "leafEnd s = i" and i0: "0 \<le> i" and r1: "1 \<le> r" and r2: "r \<le> i + 1"
    and L: "leaf_inv s g (i - r + 2)" and C: "complete s g i"
    and K: "link_inv s g (lastCreatedNode s)"
    and Q: "\<And>v. lastCreatedNode s = Some v \<Longrightarrow>
        v \<in> live g \<and> v \<noteq> root s \<and> nend s v \<noteq> None \<and> slink s v = None \<and>
        dep s g v = r - 1 \<and> agree (tree_text s) (hpos g v) (i - r + 1) (r - 1) \<and>
        v \<noteq> activeNode s"
    and A: "ap_inv s g i (r - 1)"
    by (simp_all add: mid_inv_def r_def)
  note c = acc_cong[of s' s, OF e(2,3,4,6,7,8,1)]
  have dp: "dep s' g v = dep s g v" for v
    by (simp add: c)
  have S': "struct_inv s' g" using S by (simp add: c)
  have L': "leaf_inv s' g (i - remainingSuffixCount s' + 1)"
    using L by (simp add: c e r_def algebra_simps)
  have C': "complete s' g i" using C by (simp add: c)
  have K': "link_inv s' g (lastCreatedNode s')"
    using K by (simp add: c(9)[OF e(5)] e)
  have Q': "pend_inv s' g i"
    unfolding pend_inv_def using Q by (auto simp: e dp r_def algebra_simps)
  from A have an: "activeNode s \<in> live g" "nend s (activeNode s) \<noteq> None"
    "0 \<le> activeLength s" "dep s g (activeNode s) + activeLength s = r - 1"
    "agree (tree_text s) (hpos g (activeNode s)) (i - (r - 1)) (dep s g (activeNode s))"
    "0 < activeLength s \<Longrightarrow> activeEdge s = i - activeLength s"
    by (simp_all add: ap_inv_def)
  note d0 = dep_nonneg[OF S an(1)]
  have A': "if remainingSuffixCount s' = 0 then activeNode s' = root s' \<and> activeLength s' = 0
      else ap_inv s' g i (remainingSuffixCount s' - 1)"
  proof (cases "r = 1")
    case True
    with an(3,4) d0 have "dep s g (activeNode s) \<le> 0" "activeLength s = 0" by simp_all
    with dep_zero_root[OF S an(1)] True show ?thesis by (simp add: e r_def)
  next
    case False
    with r1 have r3: "2 \<le> r" by simp
    show ?thesis
    proof (cases "activeNode s = root s")
      case True
      with struct_rootD[OF S] an(4) r3 have al: "activeLength s = r - 1" by simp
      with True r3 struct_rootD[OF S] show ?thesis
        by (simp add: e ap_inv_def dp r_def[symmetric])
    next
      case False
      have "Some (activeNode s) \<noteq> lastCreatedNode s" using Q by force
      with K an(1,2) False have lk: "link_ok s g (activeNode s)"
        by (simp add: link_inv_def)
      define u where "u = link_target s (activeNode s)"
      from lk have u: "u \<in> live g" "nend s u \<noteq> None" "dep s g u = dep s g (activeNode s) - 1"
        "agree (tree_text s) (hpos g u) (hpos g (activeNode s) + 1) (dep s g u)"
        by (simp_all add: link_ok_def u_def)
      have "agree (tree_text s) (hpos g (activeNode s) + 1) (i - (r - 1) + 1)
          (dep s g (activeNode s) - 1)"
        using agree_shift[OF an(5), of 1] by simp
      then have "agree (tree_text s) (hpos g (activeNode s) + 1) (i - (r - 2)) (dep s g u)"
        by (rule agree_eq) (use u(3) in simp_all)
      from agree_trans[OF u(4) this order_refl order_refl]
      have "agree (tree_text s) (hpos g u) (i - (r - 2)) (dep s g u)" .
      with False r3 u an show ?thesis
        by (simp add: e ap_inv_def dp r_def[symmetric] u_def[symmetric])
    qed
  qed
  from S' inj le i0 r1 r2 L' C' K' Q' A' show ?thesis
    by (simp add: loop_inv_def s'_def[symmetric] e r_def[symmetric])
qed

section \<open>Walking down\<close>

lemma walkDown_loop:
  assumes L: "loop_inv s g i" and r: "1 \<le> remainingSuffixCount s"
    and ae: "activeEdge s = i - activeLength s"
    and n: "kid s (activeNode s) (charToIndex (tch (tree_text s) (i - activeLength s))) = Some nx"
    and w: "edgeLength (node_at s nx) (leafEnd s) \<le> activeLength s"
  defines "el \<equiv> edgeLength (node_at s nx) (leafEnd s)"
  defines "s' \<equiv> s\<lparr>activeEdge := activeEdge s + el, activeLength := activeLength s - el,
                    activeNode := nx\<rparr>"
  shows "loop_inv s' g i" "0 \<le> activeLength s'" "activeLength s' < activeLength s"
    "remainingSuffixCount s' = remainingSuffixCount s"
proof -
  define j where "j = i - remainingSuffixCount s + 1"
  note F = loop_facts[OF L r, folded j_def]
  note N = child_at_active[OF L r n, folded j_def]
  have el: "el = dep s g nx - dep s g (activeNode s)"
    by (simp add: el_def N(8))
  have le: "dep s g nx \<le> i - j" using w F(14) by (simp add: el_def[symmetric] el)
  have f: "tree_text s' = tree_text s" "root s' = root s" "leafEnd s' = leafEnd s"
    "node_count s' = node_count s" "remainingSuffixCount s' = remainingSuffixCount s"
    "lastCreatedNode s' = lastCreatedNode s" "activeNode s' = nx"
    "activeLength s' = activeLength s - el" "activeEdge s' = activeEdge s + el"
    "nstart s' = nstart s" "nend s' = nend s" "kid s' = kid s" "slink s' = slink s"
    by (simp_all add: s'_def acc_simps)
  show "remainingSuffixCount s' = remainingSuffixCount s" by (rule f)
  show p: "0 \<le> activeLength s'" using w by (simp add: f el_def)
  show "activeLength s' < activeLength s" using N(4) by (simp add: f el)
  note c = acc_cong[of s' s, OF f(10,11,12,1,2,3,4)]
  have d: "dep s' = dep s" by (rule c)
  have K': "link_inv s' g (lastCreatedNode s')"
    using F(9) by (simp add: c(9)[OF f(13)] f)
  have Q': "pend_inv s' g i"
    using F(10) by (simp add: pend_inv_def f d)
  have "agree (tree_text s) (hpos g nx) j (dep s g nx)"
    using N(6) le by (simp add: min_def split: if_splits)
  then have A': "ap_inv s' g i (remainingSuffixCount s' - 1)"
    using N(1) N(7)[OF le] p F(14) ae
    by (simp add: ap_inv_def f d el j_def algebra_simps)
  from F(1,2,3,5,7,8) K' Q' A' L r
  show "loop_inv s' g i"
    by (simp add: loop_inv_def f j_def c)
qed

section \<open>Rule 3\<close>

text \<open>
  A node that waits for its suffix link has two children, so its path label without the
  first character is followed by two different characters in the tree: the active
  point is at a node.
\<close>

lemma pending_at_node:
  assumes L: "loop_inv s g i" and r: "1 \<le> remainingSuffixCount s"
    and n: "kid s (activeNode s) (charToIndex (tch (tree_text s) (i - activeLength s))) = Some nx"
    and w: "activeLength s < edgeLength (node_at s nx) (leafEnd s)"
    and m: "tch (tree_text s) (nstart s nx + activeLength s) = tch (tree_text s) i"
    and lc: "lastCreatedNode s = Some lc"
  shows "activeLength s = 0"
proof (rule ccontr)
  define j where "j = i - remainingSuffixCount s + 1"
  define r where "r = remainingSuffixCount s"
  have jr: "i - j = r - 1" "i - r = j - 1" by (simp_all add: j_def r_def)
  note F = loop_facts[OF L r, folded j_def]
  note N = child_at_active[OF L r n, folded j_def]
  assume "activeLength s \<noteq> 0"
  with F(13) have p: "0 < activeLength s" by simp
  from F(10) lc have P: "lc \<in> live g" "lc \<noteq> root s" "nend s lc \<noteq> None"
    "dep s g lc = r" "agree (tree_text s) (hpos g lc) (j - 1) r"
    by (simp_all add: pend_inv_def r_def jr[unfolded r_def])
  from F(7) P(1,2,3) obtain k1 k2 c1 c2 where
    k: "k1 \<noteq> k2" "kid s lc k1 = Some c1" "kid s lc k2 = Some c2"
    by (fastforce simp: leaf_inv_def)
  from struct_kidD(4)[OF F(1) P(1) k(2)] struct_kidD(4)[OF F(1) P(1) k(3)] k(1)
  have "tch (tree_text s) (nstart s c1) \<noteq> tch (tree_text s) (nstart s c2)"
    by (auto simp: first_key_def)
  with k obtain k0 c where c: "kid s lc k0 = Some c"
    "tch (tree_text s) (nstart s c) \<noteq> tch (tree_text s) i"
    by metis
  note kd = kid_dep[OF F(1) P(1) c(1)]
  note kc = struct_kidD[OF F(1) P(1) c(1)]
  note ec = struct_edgeD[OF F(1) kc(1,2)]
  have sc: "nstart s c = hpos g c + r" using kd(2) P(4) by simp
  have "nstart s c \<le> i" using ec(6,7) F(3) by simp
  with c(2) have "nstart s c \<noteq> i" "nstart s c \<le> i - 1" by (auto simp: le_less)
  with sc have hc: "hpos g c + r \<le> i - 1" by simp
  have "0 \<le> hpos g c + 1 \<and> hpos g c + 1 \<le> i" using ec(3) hc r by (simp add: r_def)
  with F(8) obtain u where u: "u \<in> live g" "i - (hpos g c + 1) \<le> dep s g u"
    "agree (tree_text s) (hpos g u) (hpos g c + 1) (i - (hpos g c + 1))"
    unfolding complete_def by blast
  have ur: "r \<le> dep s g u" using u(2) hc by simp
  have u1: "agree (tree_text s) (hpos g u) (hpos g c + 1) r"
    using agree_mono[OF u(3)] hc by simp
  have c1: "agree (tree_text s) (hpos g c + 1) (hpos g lc + 1) (r - 1)"
    using agree_shift[OF agree_sym[OF kd(3)], of 1] P(4) by simp
  have l1: "agree (tree_text s) (hpos g lc + 1) j (r - 1)"
    using agree_shift[OF P(5), of 1] by simp
  have "agree (tree_text s) (hpos g u) (hpos g lc + 1) (r - 1)"
    by (rule agree_trans[OF u1 c1]) simp_all
  from agree_trans[OF this l1 order_refl order_refl]
  have uj: "agree (tree_text s) (hpos g u) j (r - 1)" .
  have d1: "dep s g (activeNode s) < r - 1" using F(14) p jr by simp
  then have d2: "dep s g (activeNode s) < dep s g u" using ur by simp
  have au: "agree (tree_text s) (hpos g (activeNode s)) (hpos g u) (dep s g (activeNode s))"
    by (rule agree_trans[OF F(15) agree_sym[OF uj]]) (use d1 in simp_all)
  from descent[OF F(1) F(11) u(1) d2 au] obtain c' where
    c': "kid s (activeNode s) (charToIndex (tch (tree_text s) (hpos g u + dep s g (activeNode s))))
        = Some c'" and a: "anc s g c' u" by blast
  have "tch (tree_text s) (hpos g u + dep s g (activeNode s))
      = tch (tree_text s) (j + dep s g (activeNode s))"
    using agreeD[OF uj F(17) d1] .
  also have "j + dep s g (activeNode s) = i - activeLength s" using F(14) by simp
  finally have "c' = nx" using c' n by simp
  with anc_prefix[OF F(1) a]
  have nu: "dep s g nx \<le> dep s g u" "agree (tree_text s) (hpos g nx) (hpos g u) (dep s g nx)"
    by simp_all
  have dn: "r - 1 < dep s g nx" using w N(8) F(14) jr by simp
  have r0: "0 \<le> r - 1" using r by (simp add: r_def)
  have "tch (tree_text s) i = tch (tree_text s) (hpos g nx + (r - 1))"
    using m N(11) jr by simp
  also have "\<dots> = tch (tree_text s) (hpos g u + (r - 1))"
    using agreeD[OF nu(2) r0 dn] .
  also have "\<dots> = tch (tree_text s) (hpos g c + 1 + (r - 1))"
    using agreeD[OF u1 r0] by simp
  also have "hpos g c + 1 + (r - 1) = nstart s c" using sc by simp
  finally show False using c(2) by simp
qed

lemma break_complete:
  assumes L: "loop_inv s g i" and r: "1 \<le> remainingSuffixCount s"
    and n: "kid s (activeNode s) (charToIndex (tch (tree_text s) (i - activeLength s))) = Some nx"
    and w: "activeLength s < edgeLength (node_at s nx) (leafEnd s)"
    and m: "tch (tree_text s) (nstart s nx + activeLength s) = tch (tree_text s) i"
  shows "complete s g (i + 1)"
  unfolding complete_def
proof (intro allI impI)
  define j where "j = i - remainingSuffixCount s + 1"
  note F = loop_facts[OF L r, folded j_def]
  note N = child_at_active[OF L r n, folded j_def]
  have dn: "i - j < dep s g nx" using w N(8) F(14) by simp
  note hj = N(12)[OF dn]
  have h0: "0 \<le> hpos g nx" by (rule label_in_text(1)[OF F(1) N(1)])
  have "agree (tree_text s) (hpos g nx) j (i - j)"
    using N(6) dn by (simp add: min_def)
  moreover have "tch (tree_text s) (hpos g nx + (i - j)) = tch (tree_text s) (j + (i - j))"
    using m N(11) by simp
  ultimately have ag: "agree (tree_text s) (hpos g nx) j (i - j + 1)"
    by (rule agree_snoc)
  fix a assume a: "0 \<le> a \<and> a \<le> i + 1"
  consider "a = i + 1" | "a < j" | "j \<le> a" "a \<le> i" using a by linarith
  then show "\<exists>v\<in>live g. i + 1 - a \<le> dep s g v \<and> agree (tree_text s) (hpos g v) a (i + 1 - a)"
  proof cases
    case 1
    with struct_rootD(1,4)[OF F(1)] show ?thesis by (intro bexI[of _ "root s"]) auto
  next
    case 2
    with a F(7) obtain v where "v \<in> live g" "nend s v = None" "hpos g v = a"
      by (auto simp: leaf_inv_def)
    then show ?thesis
      by (intro bexI[of _ v]) (auto simp: dep_def eend_def F(3))
  next
    case 3
    define a' where "a' = a - (j - hpos g nx)"
    have a': "0 \<le> a'" "a' \<le> i" "a' < a" using 3 hj h0 by (simp_all add: a'_def)
    from F(8) a'(1,2) obtain v where v: "v \<in> live g" "i - a' \<le> dep s g v"
      "agree (tree_text s) (hpos g v) a' (i - a')"
      unfolding complete_def by blast
    have "agree (tree_text s) (hpos g nx + (a - j)) (j + (a - j)) (i - j + 1 - (a - j))"
      by (rule agree_shift[OF ag]) (use 3 in simp)
    then have "agree (tree_text s) a' a (i + 1 - a)"
      by (rule agree_eq) (simp_all add: a'_def)
    from agree_trans[OF v(3) this, of "i + 1 - a"] a'(3)
    have "agree (tree_text s) (hpos g v) a (i + 1 - a)" by simp
    with v(1,2) a'(3) show ?thesis by (intro bexI[of _ v]) auto
  qed
qed

lemma break_post:
  assumes L: "loop_inv s g i" and r: "1 \<le> remainingSuffixCount s"
    and ae: "activeEdge s = i - activeLength s"
    and n: "kid s (activeNode s) (charToIndex (tch (tree_text s) (i - activeLength s))) = Some nx"
    and w: "activeLength s < edgeLength (node_at s nx) (leafEnd s)"
    and m: "tch (tree_text s) (nstart s nx + activeLength s) = tch (tree_text s) i"
  shows "post_inv (showStopper s) g i"
proof -
  define s' where "s' = showStopper s"
  define j where "j = i - remainingSuffixCount s + 1"
  define r where "r = remainingSuffixCount s"
  have jr: "i - j = r - 1" "i - r = j - 1" "i + 1 - r = j" by (simp_all add: j_def r_def)
  note F = loop_facts[OF L assms(2), folded j_def]
  note f = showStopper_fields[of s, folded s'_def]
  note acc = showStopper_acc[of s, folded s'_def]
  note c = acc_cong[of s' s, OF acc(1,2,3) f(2,3,8,1)]
  have K': "link_inv s' g None"
  proof (cases "lastCreatedNode s")
    case None
    with acc(4) have "slink s' = slink s" by simp
    from c(9)[OF this] F(9) None show ?thesis by simp
  next
    case (Some lc)
    from pending_at_node[OF L assms(2) n w m Some] have al: "activeLength s = 0" .
    with F(14) jr have da: "dep s g (activeNode s) = r - 1" by simp
    from F(10) Some have P: "lc \<in> live g" "lc \<noteq> root s" "nend s lc \<noteq> None"
      "slink s lc = None" "dep s g lc = r" "agree (tree_text s) (hpos g lc) (j - 1) r"
      by (simp_all add: pend_inv_def r_def jr[unfolded r_def])
    show ?thesis unfolding link_inv_def
    proof (intro ballI impI)
      fix v assume v: "v \<in> live g" "v \<noteq> root s'" "nend s' v \<noteq> None"
      show "link_ok s' g v"
      proof (cases "v = lc")
        case False
        with acc(4) Some have "slink s' v = slink s v" by simp
        then have "link_target s' v = link_target s v"
          by (simp add: link_target_def f cong: option.case_cong)
        moreover from F(9) v False Some have "link_ok s g v"
          by (simp add: link_inv_def f acc)
        ultimately show ?thesis by (simp add: link_ok_def c acc f)
      next
        case True
        show ?thesis
        proof (cases "activeNode s = root s")
          case r: True
          with acc(4) Some P(4) True have "link_target s' v = root s"
            by (simp add: link_target_def f)
          moreover from r da struct_rootD(4)[OF F(1)] have "r = 1" by simp
          ultimately show ?thesis
            using struct_rootD[OF F(1)] P(5) True by (simp add: link_ok_def c acc f)
        next
          case r: False
          with acc(4) Some True have t: "link_target s' v = activeNode s"
            by (simp add: link_target_def)
          have "agree (tree_text s) (hpos g lc + 1) j (r - 1)"
            using agree_shift[OF P(6), of 1] by simp
          from agree_trans[OF F(15) agree_sym[OF this], of "r - 1"] da
          have "agree (tree_text s) (hpos g (activeNode s)) (hpos g lc + 1) (r - 1)" by simp
          with t F(11,12) da P(5) True show ?thesis
            by (simp add: link_ok_def c acc f)
        qed
      qed
    qed
  qed
  have A': "ap_inv s' g (i + 1) r"
    using F(11,12,13,14,15) ae jr by (simp add: ap_inv_def f acc c)
  have C': "complete s' g (i + 1)"
    using break_complete[OF L assms(2) n w m] by (simp add: c)
  from F(1,2,3,4,5,7) assms(2) K' A' C' jr show ?thesis
    by (simp add: post_inv_def s'_def[symmetric] f c r_def[symmetric])
qed

section \<open>Rule 2: a new leaf under the active node\<close>

lemma newLeaf_mid:
  assumes L: "loop_inv s g i" and r: "1 \<le> remainingSuffixCount s"
    and ae: "activeEdge s = i - activeLength s"
    and n: "kid s (activeNode s) (charToIndex (tch (tree_text s) (i - activeLength s))) = None"
  defines "g' \<equiv> g\<lparr>live := insert (node_count s) (live g),
                    par := (par g)(node_count s := activeNode s),
                    hpos := (hpos g)(node_count s := i - remainingSuffixCount s + 1)\<rparr>"
  shows "mid_inv (newLeaf i (charToIndex (tch (tree_text s) (i - activeLength s))) s) g' i"
proof -
  define j where "j = i - remainingSuffixCount s + 1"
  define lf where "lf = node_count s"
  define an where "an = activeNode s"
  define k where "k = charToIndex (tch (tree_text s) i)"
  define s2 where "s2 = newLeaf i k s"
  note F = loop_facts[OF L r, folded j_def an_def]
  have al: "activeLength s = 0" by (rule no_child_at_node[OF L r n])
  have nk: "kid s an k = None" using n al by (simp add: an_def k_def)
  have da: "dep s g an = i - j" using F(14) al by simp
  have old: "v \<noteq> lf" if "v \<in> live g" for v
    using struct_fresh[OF F(1) that] by (simp add: lf_def)
  have anlf: "an \<noteq> lf" and rtlf: "root s \<noteq> lf"
    using old[OF F(11)] old[OF struct_rootD(1)[OF F(1)]] by simp_all
  note f = newLeaf_fields[of i k s, folded s2_def lf_def an_def]
  note acc0 = newLeaf_acc[of i k s, folded s2_def lf_def an_def]
  have g: "live g' = insert lf (live g)" "par g' = (par g)(lf := an)"
    "hpos g' = (hpos g)(lf := j)"
    by (simp_all add: g'_def lf_def an_def j_def)
  have acc: "nstart s2 = (nstart s)(lf := i)" "nend s2 = (nend s)(lf := None)"
    "kid s2 = (kid s)(lf := (\<lambda>_. None), an := (kid s an)(k \<mapsto> lf))"
    using acc0(1,2,3) anlf by simp_all
  have sl: "slink s2 v = (if lastCreatedNode s = Some v then Some an else slink s v)"
    if "v \<in> live g" for v
    using acc0(4) old[OF that] by (auto split: option.splits)
  have ee: "eend s2 v = eend s v" if "v \<noteq> lf" for v
    using that by (simp add: eend_def acc f cong: option.case_cong)
  have eelf: "eend s2 lf = i" by (simp add: eend_def acc f F(3))
  have dp: "dep s2 g' v = dep s g v" if "v \<noteq> lf" for v
    using that by (simp add: dep_def ee g)
  have dplf: "dep s2 g' lf = i + 1 - j" by (simp add: dep_def eelf g)
  have fk: "first_key s2 v = first_key s v" if "v \<noteq> lf" for v
    using that by (simp add: first_key_def acc f)
  have fklf: "first_key s2 lf = k" by (simp add: first_key_def acc f k_def)
  have kidan: "kid s2 an = (kid s an)(k \<mapsto> lf)" by (simp add: acc)
  have kido: "kid s2 v = kid s v" if "v \<noteq> lf" "v \<noteq> an" for v
    using that by (simp add: acc)
  have kidlf: "kid s2 lf = (\<lambda>_. None)" using anlf by (simp add: acc)
  have S': "struct_inv s2 g'"
    unfolding struct_inv_def
  proof (intro conjI ballI impI)
    show "root s2 \<in> live g'" using struct_rootD(1)[OF F(1)] by (simp add: f g)
    show "nend s2 (root s2) = Some (- 1)" using struct_rootD(2)[OF F(1)] rtlf by (simp add: f acc)
    show "hpos g' (root s2) = 0" using struct_rootD(3)[OF F(1)] rtlf by (simp add: f g)
    show "- 1 \<le> leafEnd s2" "leafEnd s2 < int (length (tree_text s2))"
      using struct_rootD(5,6)[OF F(1)] by (simp_all add: f)
  next
    fix v assume "v \<in> live g'"
    then show "v < node_count s2" using struct_fresh[OF F(1), of v] by (auto simp: f g lf_def)
  next
    fix v assume v: "v \<in> live g'"
    show "kids_ok s2 g' v"
      unfolding kids_ok_def
    proof (intro allI impI)
      fix k' c assume kc: "kid s2 v k' = Some c"
      show "c \<in> live g' \<and> c \<noteq> root s2 \<and> par g' c = v \<and> k' = first_key s2 c"
      proof (cases "v = an \<and> k' = k")
        case True
        with kc kidan have "c = lf" by simp
        with True rtlf fklf show ?thesis by (simp add: f g)
      next
        case False
        from kc kidlf have vlf: "v \<noteq> lf" by auto
        with v have vL: "v \<in> live g" by (simp add: g)
        from False kc kidan kido[OF vlf] have "kid s v k' = Some c"
          by (cases "v = an") auto
        note kd = struct_kidD[OF F(1) vL this]
        with old[OF kd(1)] show ?thesis by (simp add: f g fk)
      qed
    qed
  next
    fix v assume v: "v \<in> live g'" "v \<noteq> root s2"
    show "edge_ok s2 g' v"
    proof (cases "v = lf")
      case True
      have "agree (tree_text s) (hpos g an) j (dep s g an)" by (rule F(15))
      with True F(4,11,17) da anlf show ?thesis
        by (simp add: edge_ok_def g f fklf kidan dp[OF anlf] acc eelf F(3))
    next
      case False
      with v have vL: "v \<in> live g" "v \<noteq> root s" by (simp_all add: g f)
      note e = struct_edgeD[OF F(1) vL]
      have pl: "par g v \<noteq> lf" by (rule old[OF e(1)])
      have "kid s2 (par g v) (first_key s v) = Some v"
      proof (cases "par g v = an")
        case True
        with e(2) nk have "first_key s v \<noteq> k" by auto
        with True e(2) kidan show ?thesis by simp
      next
        case False
        with kido[OF pl False] e(2) show ?thesis by simp
      qed
      with e False pl show ?thesis
        by (simp add: edge_ok_def g f fk[OF False] dp[OF pl] ee[OF False] acc)
    qed
  qed
  have L': "leaf_inv s2 g' (j + 1)"
  proof (rule leaf_invI)
    fix v assume v: "v \<in> live g'" "v \<noteq> root s2"
    show "(nend s2 v = None) = (\<forall>k. kid s2 v k = None)"
    proof (cases "v = lf")
      case True
      then show ?thesis by (simp add: kidlf acc(2))
    next
      case False
      with v have vL: "v \<in> live g" "v \<noteq> root s" by (simp_all add: g f)
      show ?thesis
      proof (cases "v = an")
        case True
        with F(12) kidan False show ?thesis by (auto simp: acc(2))
      next
        case an: False
        with leaf_invD(1)[OF F(7) vL] kido[OF False an] False show ?thesis by (simp add: acc(2))
      qed
    qed
  next
    fix v assume v: "v \<in> live g'" "v \<noteq> root s2" "nend s2 v = None"
    show "hpos g' v < j + 1"
    proof (cases "v = lf")
      case True
      then show ?thesis by (simp add: g)
    next
      case False
      with v have "v \<in> live g" "v \<noteq> root s" "nend s v = None" by (simp_all add: g f acc(2))
      from leaf_invD(2)[OF F(7) this] False show ?thesis by (simp add: g)
    qed
  next
    fix a :: int assume a: "0 \<le> a" "a < j + 1"
    show "\<exists>v\<in>live g'. v \<noteq> root s2 \<and> nend s2 v = None \<and> hpos g' v = a"
    proof (cases "a = j")
      case True
      with rtlf show ?thesis by (intro bexI[of _ lf]) (simp_all add: g f acc(2))
    next
      case False
      with a have "a < j" by simp
      from leaf_invD(3)[OF F(7) a(1) this] obtain v where
        "v \<in> live g" "v \<noteq> root s" "nend s v = None" "hpos g v = a" by blast
      with old[of v] show ?thesis by (intro bexI[of _ v]) (simp_all add: g f acc(2))
    qed
  next
    fix v e assume v: "v \<in> live g'" "v \<noteq> root s2" "nend s2 v = Some e"
    then have vlf: "v \<noteq> lf" by (auto simp: acc(2))
    with v have vL: "v \<in> live g" "v \<noteq> root s" "nend s v = Some e"
      by (simp_all add: g f acc(2))
    from leaf_invD(4)[OF F(7) vL] show "e < leafEnd s2" by (simp add: f)
    from leaf_invD(5)[OF F(7) vL] obtain k1 k2 where
      k: "k1 \<noteq> k2" "kid s v k1 \<noteq> None" "kid s v k2 \<noteq> None" by blast
    have "kid s2 v k1 \<noteq> None" "kid s2 v k2 \<noteq> None"
      using k(2,3) kidan kido[OF vlf] by (cases "v = an"; simp)+
    with k(1) show "\<exists>k1 k2. k1 \<noteq> k2 \<and> kid s2 v k1 \<noteq> None \<and> kid s2 v k2 \<noteq> None"
      by blast
  qed
  have C': "complete s2 g' i"
    unfolding complete_def
  proof (intro allI impI)
    fix a assume "0 \<le> a \<and> a \<le> i"
    with F(8) obtain v where v: "v \<in> live g" "i - a \<le> dep s g v"
      "agree (tree_text s) (hpos g v) a (i - a)"
      unfolding complete_def by blast
    with old[OF v(1)] show "\<exists>v\<in>live g'. i - a \<le> dep s2 g' v
        \<and> agree (tree_text s2) (hpos g' v) a (i - a)"
      by (intro bexI[of _ v]) (simp_all add: dp g f)
  qed
  have K': "link_inv s2 g' None"
    unfolding link_inv_def
  proof (intro ballI impI)
    fix v assume v: "v \<in> live g'" "v \<noteq> root s2" "nend s2 v \<noteq> None"
    then have vlf: "v \<noteq> lf" by (auto simp: acc)
    with v have vL: "v \<in> live g" "v \<noteq> root s" "nend s v \<noteq> None" by (simp_all add: g f acc)
    show "link_ok s2 g' v"
    proof (cases "lastCreatedNode s = Some v")
      case True
      with F(10) have P: "dep s g v = remainingSuffixCount s"
        "agree (tree_text s) (hpos g v) (j - 1) (remainingSuffixCount s)"
        by (simp_all add: pend_inv_def j_def)
      from sl[OF vL(1)] True have t: "link_target s2 v = an" by (simp add: link_target_def)
      have "agree (tree_text s) (hpos g v + 1) j (remainingSuffixCount s - 1)"
        using agree_shift[OF P(2), of 1] by simp
      from agree_trans[OF F(15) agree_sym[OF this], of "dep s g v - 1"] da P(1)
      have "agree (tree_text s) (hpos g an) (hpos g v + 1) (dep s g v - 1)"
        by (simp add: j_def)
      with t F(11,12) da P(1) anlf vlf show ?thesis
        by (simp add: link_ok_def g f acc dp j_def)
    next
      case False
      with F(9) vL have lo: "link_ok s g v" by (simp add: link_inv_def)
      from sl[OF vL(1)] False have t: "link_target s2 v = link_target s v"
        by (simp add: link_target_def f cong: option.case_cong)
      from lo have "link_target s v \<in> live g" by (simp add: link_ok_def)
      from old[OF this] lo vlf show ?thesis
        by (simp add: link_ok_def t g f acc dp)
    qed
  qed
  have A': "ap_inv s2 g' i (remainingSuffixCount s2 - 1)"
    by (rule ap_invI[where j = j])
      (use F(11,12,13,14,15) al anlf in \<open>simp_all add: f g acc dp j_def\<close>)
  have eq: "i - remainingSuffixCount s2 + 2 = j + 1" by (simp add: f j_def)
  have L'': "leaf_inv s2 g' (i - remainingSuffixCount s2 + 2)" unfolding eq by (rule L')
  have "remainingSuffixCount s2 \<le> i + 1" using F(4) by (simp add: f j_def)
  with S' F(2,3,5) r L'' C' K' A' have "mid_inv s2 g' i"
    unfolding mid_inv_def by (simp add: f)
  then show ?thesis by (simp add: s2_def k_def al)
qed

section \<open>Rule 2: the split of an edge\<close>

lemma tch_in_set: "0 \<le> p \<Longrightarrow> p < int (length t) \<Longrightarrow> tch t p \<in> set t"
  by (simp add: tch_def)

lemma split_facts:
  assumes L: "loop_inv s g i" and r: "1 \<le> remainingSuffixCount s"
    and n: "kid s (activeNode s) (charToIndex (tch (tree_text s) (i - activeLength s))) = Some nx"
    and w: "activeLength s < edgeLength (node_at s nx) (leafEnd s)"
    and m: "tch (tree_text s) (nstart s nx + activeLength s) \<noteq> tch (tree_text s) i"
  defines "j \<equiv> i - remainingSuffixCount s + 1"
  shows "i - j < dep s g nx" "agree (tree_text s) (hpos g nx) j (i - j)"
    "0 < activeLength s" "hpos g nx < j" "0 \<le> hpos g nx"
    "0 \<le> nstart s nx + activeLength s" "nstart s nx + activeLength s \<le> eend s nx"
    "nstart s nx + activeLength s < int (length (tree_text s))"
    "charToIndex (tch (tree_text s) (nstart s nx + activeLength s))
       \<noteq> charToIndex (tch (tree_text s) i)"
    "charToIndex (tch (tree_text s) (i - activeLength s)) = first_key s nx"
proof -
  note F = loop_facts[OF L r, folded j_def]
  note N = child_at_active[OF L r n, folded j_def]
  show dn: "i - j < dep s g nx" using w N(8) F(14) by simp
  show "agree (tree_text s) (hpos g nx) j (i - j)" using N(6) dn by (simp add: min_def)
  show "hpos g nx < j" by (rule N(12)[OF dn])
  show h0: "0 \<le> hpos g nx" by (rule label_in_text(1)[OF F(1) N(1)])
  note e = struct_edgeD[OF F(1) N(1,2)]
  show p0: "0 \<le> nstart s nx + activeLength s" using N(11) h0 F(5) by simp
  show p1: "nstart s nx + activeLength s \<le> eend s nx"
    using w by (simp add: edgeLength_eend)
  with e(7) F(3,6) show p2: "nstart s nx + activeLength s < int (length (tree_text s))" by simp
  from struct_kidD(4)[OF F(1) F(11) n]
  show fk: "charToIndex (tch (tree_text s) (i - activeLength s)) = first_key s nx" .
  have ii: "tch (tree_text s) i \<in> set (tree_text s)"
    using F(4,5,6) by (intro tch_in_set) simp_all
  have pp: "tch (tree_text s) (nstart s nx + activeLength s) \<in> set (tree_text s)"
    using p0 p2 by (rule tch_in_set)
  from m inj_onD[OF F(2) _ pp ii]
  show "charToIndex (tch (tree_text s) (nstart s nx + activeLength s))
       \<noteq> charToIndex (tch (tree_text s) i)" by blast
  show "0 < activeLength s"
  proof (rule ccontr)
    assume "\<not> 0 < activeLength s"
    with F(13) have al: "activeLength s = 0" by simp
    with fk have "charToIndex (tch (tree_text s) i) = charToIndex (tch (tree_text s) (nstart s nx))"
      by (simp add: first_key_def)
    from inj_onD[OF F(2) this ii] pp al m show False by simp
  qed
qed

lemma split_mid:
  assumes L: "loop_inv s g i" and r: "1 \<le> remainingSuffixCount s"
    and ae: "activeEdge s = i - activeLength s"
    and n: "kid s (activeNode s) (charToIndex (tch (tree_text s) (i - activeLength s))) = Some nx"
    and w: "activeLength s < edgeLength (node_at s nx) (leafEnd s)"
    and m: "tch (tree_text s) (nstart s nx + activeLength s) \<noteq> tch (tree_text s) i"
  defines "g' \<equiv> g\<lparr>live := insert (node_count s) (insert (Suc (node_count s)) (live g)),
                    par := (par g)(node_count s := activeNode s,
                                   Suc (node_count s) := node_count s, nx := node_count s),
                    hpos := (hpos g)(node_count s := hpos g nx,
                                     Suc (node_count s) := i - remainingSuffixCount s + 1)\<rparr>"
  shows "mid_inv (split_state i (charToIndex (tch (tree_text s) (i - activeLength s))) nx s) g' i"
proof -
  define j where "j = i - remainingSuffixCount s + 1"
  define sp where "sp = node_count s"
  define lf where "lf = Suc (node_count s)"
  define an where "an = activeNode s"
  define al where "al = activeLength s"
  define k where "k = charToIndex (tch (tree_text s) (i - activeLength s))"
  define kl where "kl = charToIndex (tch (tree_text s) i)"
  define kn where "kn = charToIndex (tch (tree_text s) (nstart s nx + al))"
  define s2 where "s2 = split_state i k nx s"
  note F = loop_facts[OF L r, folded j_def an_def al_def]
  note N = child_at_active[OF L r n, folded j_def an_def al_def]
  note X = split_facts[OF L r n w m, folded j_def an_def al_def kl_def kn_def k_def]
  have nk: "kid s an k = Some nx" using n by (simp add: an_def k_def)
  have old: "v \<noteq> sp \<and> v \<noteq> lf" if "v \<in> live g" for v
    using struct_fresh[OF F(1) that] by (simp add: sp_def lf_def)
  have ne: "an \<noteq> sp" "an \<noteq> lf" "nx \<noteq> sp" "nx \<noteq> lf" "root s \<noteq> sp" "root s \<noteq> lf"
    "sp \<noteq> lf" "nx \<noteq> an" "nx \<noteq> root s"
    using old[OF F(11)] old[OF N(1)] old[OF struct_rootD(1)[OF F(1)]] N(9,2)
    by (simp_all add: sp_def lf_def)
  note f = split_state_fields[of i k nx s, folded s2_def sp_def lf_def an_def al_def]
  have "nx < node_count s" "activeNode s < node_count s"
    using struct_fresh[OF F(1) N(1)] struct_fresh[OF F(1) F(11)] by (simp_all add: an_def)
  note acc0 = split_state_acc[OF this, of i k, folded s2_def sp_def lf_def an_def al_def
      kl_def kn_def]
  have g: "live g' = insert sp (insert lf (live g))"
    "par g' = (par g)(sp := an, lf := sp, nx := sp)"
    "hpos g' = (hpos g)(sp := hpos g nx, lf := j)"
    by (simp_all add: g'_def lf_def sp_def an_def j_def)
  have dsp: "nstart s nx + al = hpos g nx + (i - j)" by (rule N(11))
  have st: "nstart s2 sp = nstart s nx" "nstart s2 lf = i" "nstart s2 nx = nstart s nx + al"
    "\<And>v. v \<noteq> sp \<Longrightarrow> v \<noteq> lf \<Longrightarrow> v \<noteq> nx \<Longrightarrow> nstart s2 v = nstart s v"
    using ne by (simp_all add: acc0(1))
  have en: "nend s2 sp = Some (nstart s nx + al - 1)" "nend s2 lf = None"
    "\<And>v. v \<noteq> sp \<Longrightarrow> v \<noteq> lf \<Longrightarrow> nend s2 v = nend s v"
    using ne by (simp_all add: acc0(2))
  have kd: "kid s2 sp = (Map.empty(kl \<mapsto> lf))(kn \<mapsto> nx)" "kid s2 lf = (\<lambda>_. None)"
    "kid s2 an = (kid s an)(k \<mapsto> sp)"
    "\<And>v. v \<noteq> sp \<Longrightarrow> v \<noteq> lf \<Longrightarrow> v \<noteq> an \<Longrightarrow> kid s2 v = kid s v"
    using ne by (simp_all add: acc0(3) kn_def kl_def)
  have sl: "slink s2 v = (if lastCreatedNode s = Some v then Some sp else slink s v)"
    if "v \<in> live g" for v
    using acc0(4) old[OF that] by (auto split: option.splits)
  have slsp: "slink s2 sp = None"
  proof (cases "lastCreatedNode s")
    case None
    with acc0(4) ne show ?thesis by simp
  next
    case (Some lc)
    with F(10) have "lc \<in> live g" by (simp add: pend_inv_def)
    with old[of lc] acc0(4) Some ne show ?thesis by auto
  qed
  have ee: "eend s2 sp = nstart s nx + al - 1" "eend s2 lf = i"
    "\<And>v. v \<noteq> sp \<Longrightarrow> v \<noteq> lf \<Longrightarrow> eend s2 v = eend s v"
    by (simp_all add: eend_def en f F(3) cong: option.case_cong)
  have dp: "dep s2 g' sp = i - j" "dep s2 g' lf = i + 1 - j"
    "\<And>v. v \<noteq> sp \<Longrightarrow> v \<noteq> lf \<Longrightarrow> dep s2 g' v = dep s g v"
    using ne dsp by (simp_all add: dep_def ee g)
  have hp: "hpos g' sp = hpos g nx" "hpos g' lf = j"
    "\<And>v. v \<noteq> sp \<Longrightarrow> v \<noteq> lf \<Longrightarrow> hpos g' v = hpos g v"
    using ne by (simp_all add: g)
  have pr: "par g' sp = an" "par g' lf = sp" "par g' nx = sp"
    "\<And>v. v \<noteq> sp \<Longrightarrow> v \<noteq> lf \<Longrightarrow> v \<noteq> nx \<Longrightarrow> par g' v = par g v"
    using ne by (simp_all add: g)
  have fk: "first_key s2 sp = k" "first_key s2 lf = kl" "first_key s2 nx = kn"
    "\<And>v. v \<noteq> sp \<Longrightarrow> v \<noteq> lf \<Longrightarrow> v \<noteq> nx \<Longrightarrow> first_key s2 v = first_key s v"
    using X(10) by (simp_all add: first_key_def st f kl_def kn_def k_def al_def)
  have kln: "kn \<noteq> kl" using X(9) by (simp add: kn_def kl_def al_def)
  have lv: "v \<in> live g'" if "v \<in> live g" for v using that by (simp add: g)
  have lsp: "sp \<in> live g'" "lf \<in> live g'" by (simp_all add: g)
  have da: "dep s g an + al = i - j" using F(14) by simp
  have S': "struct_inv s2 g'"
    unfolding struct_inv_def
  proof (intro conjI ballI impI)
    show "root s2 \<in> live g'" using struct_rootD(1)[OF F(1)] by (simp add: f g)
    show "nend s2 (root s2) = Some (- 1)" using struct_rootD(2)[OF F(1)] ne by (simp add: f en)
    show "hpos g' (root s2) = 0" using struct_rootD(3)[OF F(1)] ne by (simp add: f hp)
    show "- 1 \<le> leafEnd s2" "leafEnd s2 < int (length (tree_text s2))"
      using struct_rootD(5,6)[OF F(1)] by (simp_all add: f)
  next
    fix v assume "v \<in> live g'"
    then show "v < node_count s2" using struct_fresh[OF F(1), of v]
      by (auto simp: f g lf_def sp_def)
  next
    fix v assume v: "v \<in> live g'"
    show "kids_ok s2 g' v"
      unfolding kids_ok_def
    proof (intro allI impI)
      fix k' c assume kc: "kid s2 v k' = Some c"
      from kc kd(2) have vlf: "v \<noteq> lf" by auto
      show "c \<in> live g' \<and> c \<noteq> root s2 \<and> par g' c = v \<and> k' = first_key s2 c"
      proof (cases "v = sp")
        case True
        with kc kd(1) have "(k' = kn \<and> c = nx) \<or> (k' = kl \<and> c = lf)"
          by (auto split: if_splits)
        then show ?thesis
        proof
          assume "k' = kn \<and> c = nx"
          with True ne lv[OF N(1)] show ?thesis by (simp add: f pr fk)
        next
          assume "k' = kl \<and> c = lf"
          with True ne lsp show ?thesis by (simp add: f pr fk)
        qed
      next
        case vsp: False
        with v vlf have vL: "v \<in> live g" by (simp add: g)
        show ?thesis
        proof (cases "v = an \<and> k' = k")
          case True
          with kc kd(3) have "c = sp" by simp
          with True ne show ?thesis by (simp add: f lsp pr fk)
        next
          case False
          from False kc kd(3) kd(4)[OF vsp vlf] have kc': "kid s v k' = Some c"
            by (cases "v = an") auto
          note q = struct_kidD[OF F(1) vL kc']
          have "c \<noteq> nx"
          proof
            assume "c = nx"
            with q(3,4) N(3) X(10) False show False by (simp add: an_def k_def)
          qed
          with q old[OF q(1)] lv[OF q(1)] show ?thesis by (simp add: f pr fk)
        qed
      qed
    qed
  next
    fix v assume v: "v \<in> live g'" "v \<noteq> root s2"
    consider "v = lf" | "v = sp" | "v = nx" | "v \<in> live g" "v \<noteq> nx" using v(1) by (auto simp: g)
    then show "edge_ok s2 g' v"
    proof cases
      case 1
      have "edge_ok s2 g' lf"
        unfolding edge_ok_def pr(2) fk(2) hp(1,2) dp(1) st(2) ee(2) kd(1) f
        using X(2) F(4,5) kln lsp by (simp add: F(3))
      with 1 show ?thesis by simp
    next
      case 2
      note e = struct_edgeD[OF F(1) N(1,2)]
      have q: "hpos g' an = hpos g an" "dep s2 g' an = dep s g an"
        using ne by (simp_all add: hp dp)
      have "edge_ok s2 g' sp"
        unfolding edge_ok_def pr(1) fk(1) hp(1) q st(1) ee(1) kd(3) f
        using e(8) N(3,5) X(3,4,5) F(11,17) dsp lv[OF F(11)] by (simp add: F(3))
      with 2 show ?thesis by simp
    next
      case 3
      note e = struct_edgeD[OF F(1) N(1,2)]
      have q: "hpos g' nx = hpos g nx" "eend s2 nx = eend s nx"
        using ne by (simp_all add: hp ee)
      have "edge_ok s2 g' nx"
        unfolding edge_ok_def pr(3) fk(3) hp(1) q dp(1) st(3) kd(1) f
        using e(7) X(5,7) F(5) dsp kln lsp by (simp add: F(3))
      with 3 show ?thesis by simp
    next
      case 4
      with v(2) have vr: "v \<noteq> root s" by (simp add: f)
      note e = struct_edgeD[OF F(1) 4(1) vr]
      note o = old[OF 4(1)] old[OF e(1)]
      have kv: "kid s2 (par g v) (first_key s v) = Some v"
      proof (cases "par g v = an")
        case True
        with e(2) nk 4(2) have "first_key s v \<noteq> k" by auto
        with True e(2) kd(3) show ?thesis by simp
      next
        case False
        with kd(4)[of "par g v"] o e(2) show ?thesis by simp
      qed
      have q: "par g' v = par g v" "first_key s2 v = first_key s v" "hpos g' v = hpos g v"
        "hpos g' (par g v) = hpos g (par g v)" "dep s2 g' (par g v) = dep s g (par g v)"
        "nstart s2 v = nstart s v" "eend s2 v = eend s v"
        using o 4 by (simp_all add: pr fk hp dp st ee)
      show ?thesis
        unfolding edge_ok_def q f using e kv lv[OF e(1)] by simp
    qed
  qed
  have L': "leaf_inv s2 g' (j + 1)"
  proof (rule leaf_invI)
    fix v assume v: "v \<in> live g'" "v \<noteq> root s2"
    consider "v = lf" | "v = sp" | "v = an" | "v \<in> live g" "v \<noteq> an" using v(1) by (auto simp: g)
    then show "(nend s2 v = None) = (\<forall>k. kid s2 v k = None)"
    proof cases
      case 1
      then show ?thesis by (simp add: en kd)
    next
      case 2
      then show ?thesis by (auto simp: en kd)
    next
      case 3
      with F(12) ne show ?thesis by (auto simp: en kd)
    next
      case 4
      with v(2) have vr: "v \<noteq> root s" by (simp add: f)
      from leaf_invD(1)[OF F(7) 4(1) vr] old[OF 4(1)] 4(2) show ?thesis by (simp add: en kd)
    qed
  next
    fix v assume v: "v \<in> live g'" "v \<noteq> root s2" "nend s2 v = None"
    then have "v = lf \<or> (v \<in> live g \<and> v \<noteq> root s \<and> nend s v = None)"
      using old[of v] by (auto simp: g f en)
    with leaf_invD(2)[OF F(7), of v] old[of v] show "hpos g' v < j + 1"
      by (auto simp: hp)
  next
    fix a :: int assume a: "0 \<le> a" "a < j + 1"
    show "\<exists>v\<in>live g'. v \<noteq> root s2 \<and> nend s2 v = None \<and> hpos g' v = a"
    proof (cases "a = j")
      case True
      with ne show ?thesis by (intro bexI[of _ lf]) (simp_all add: g f en)
    next
      case False
      with a have "a < j" by simp
      from leaf_invD(3)[OF F(7) a(1) this] obtain v where
        "v \<in> live g" "v \<noteq> root s" "nend s v = None" "hpos g v = a" by blast
      with old[of v] show ?thesis by (intro bexI[of _ v]) (simp_all add: lv f en hp)
    qed
  next
    fix v e assume v: "v \<in> live g'" "v \<noteq> root s2" "nend s2 v = Some e"
    then have "v \<noteq> lf" by (auto simp: en)
    with v(1) consider "v = sp" | "v \<in> live g" by (auto simp: g)
    then have "e < leafEnd s2 \<and> (\<exists>k1 k2. k1 \<noteq> k2 \<and> kid s2 v k1 \<noteq> None \<and> kid s2 v k2 \<noteq> None)"
    proof cases
      case 1
      have "kid s2 sp kl \<noteq> None" "kid s2 sp kn \<noteq> None" using kln by (simp_all add: kd)
      with kln have "\<exists>k1 k2. k1 \<noteq> k2 \<and> kid s2 sp k1 \<noteq> None \<and> kid s2 sp k2 \<noteq> None"
        by blast
      with 1 v(3) X(4) dsp F(3) show ?thesis by (auto simp: en f)
    next
      case 2
      with v have vL: "v \<in> live g" "v \<noteq> root s" "nend s v = Some e"
        using old[OF 2] by (simp_all add: f en)
      from leaf_invD(5)[OF F(7) vL] obtain k1 k2 where
        k: "k1 \<noteq> k2" "kid s v k1 \<noteq> None" "kid s v k2 \<noteq> None" by blast
      have "kid s2 v k1 \<noteq> None" "kid s2 v k2 \<noteq> None"
        using k(2,3) kd(3) kd(4)[of v] old[OF 2] by (cases "v = an"; simp)+
      with k(1) leaf_invD(4)[OF F(7) vL] show ?thesis by (auto simp: f)
    qed
    then show "e < leafEnd s2"
      "\<exists>k1 k2. k1 \<noteq> k2 \<and> kid s2 v k1 \<noteq> None \<and> kid s2 v k2 \<noteq> None" by simp_all
  qed
  have C': "complete s2 g' i"
    unfolding complete_def
  proof (intro allI impI)
    fix a assume "0 \<le> a \<and> a \<le> i"
    with F(8) obtain v where v: "v \<in> live g" "i - a \<le> dep s g v"
      "agree (tree_text s) (hpos g v) a (i - a)"
      unfolding complete_def by blast
    with old[OF v(1)] show "\<exists>v\<in>live g'. i - a \<le> dep s2 g' v
        \<and> agree (tree_text s2) (hpos g' v) a (i - a)"
      by (intro bexI[of _ v]) (simp_all add: dp hp lv f)
  qed
  have K': "link_inv s2 g' (lastCreatedNode s2)"
    unfolding link_inv_def
  proof (intro ballI impI)
    fix v assume v: "v \<in> live g'" "v \<noteq> root s2" "nend s2 v \<noteq> None"
      "Some v \<noteq> lastCreatedNode s2"
    then have vL: "v \<in> live g" "v \<noteq> root s" by (auto simp: g f en)
    note o = old[OF vL(1)]
    with v(3) have ve: "nend s v \<noteq> None" by (simp add: en)
    show "link_ok s2 g' v"
    proof (cases "lastCreatedNode s = Some v")
      case True
      with F(10) have P: "dep s g v = remainingSuffixCount s"
        "agree (tree_text s) (hpos g v) (j - 1) (remainingSuffixCount s)"
        by (simp_all add: pend_inv_def j_def)
      from sl[OF vL(1)] True have t: "link_target s2 v = sp" by (simp add: link_target_def)
      have "agree (tree_text s) (hpos g v + 1) j (remainingSuffixCount s - 1)"
        using agree_shift[OF P(2), of 1] by simp
      from agree_trans[OF X(2) agree_sym[OF this], of "dep s g v - 1"] P(1)
      have "agree (tree_text s) (hpos g nx) (hpos g v + 1) (dep s g v - 1)"
        by (simp add: j_def)
      with t P(1) o ne show ?thesis
        by (simp add: link_ok_def lv lsp f en dp hp j_def)
    next
      case False
      with F(9) vL ve have lo: "link_ok s g v" by (simp add: link_inv_def)
      from sl[OF vL(1)] False have t: "link_target s2 v = link_target s v"
        by (simp add: link_target_def f cong: option.case_cong)
      from lo have "link_target s v \<in> live g" by (simp add: link_ok_def)
      from old[OF this] this lo o show ?thesis
        by (simp add: link_ok_def t lv f en dp hp)
    qed
  qed
  have Q': "\<And>v. lastCreatedNode s2 = Some v \<Longrightarrow>
        v \<in> live g' \<and> v \<noteq> root s2 \<and> nend s2 v \<noteq> None \<and> slink s2 v = None \<and>
        dep s2 g' v = remainingSuffixCount s2 - 1 \<and>
        agree (tree_text s2) (hpos g' v) (i - remainingSuffixCount s2 + 1)
          (remainingSuffixCount s2 - 1) \<and>
        v \<noteq> activeNode s2"
    using ne X(2) slsp by (simp add: f lv lsp en dp hp j_def)
  have da': "dep s g an + al = remainingSuffixCount s - 1" "j = i - (remainingSuffixCount s - 1)"
    using F(14) by (simp_all add: j_def)
  have A': "ap_inv s2 g' i (remainingSuffixCount s2 - 1)"
    by (rule ap_invI[where j = j])
      (use F(11,12,13,15) ae[folded al_def] ne da' in \<open>simp_all add: f lv en dp hp\<close>)
  have eq: "i - remainingSuffixCount s2 + 2 = j + 1" by (simp add: f j_def)
  have L'': "leaf_inv s2 g' (i - remainingSuffixCount s2 + 2)" unfolding eq by (rule L')
  have "remainingSuffixCount s2 \<le> i + 1" using F(4) by (simp add: f j_def)
  with S' F(2,3,5) r L'' C' K' A' Q' have "mid_inv s2 g' i"
    unfolding mid_inv_def by (simp add: f)
  then show ?thesis by (simp add: s2_def k_def)
qed

section \<open>One iteration of the loop, and the loop\<close>

text \<open>
  What a part of the construction leaves alone: the nodes that are neither nodes of the
  tree nor new, and the nodes of the tree stay below the new ones.
\<close>

definition grows :: "suffix_tree \<Rightarrow> ghost \<Rightarrow> suffix_tree \<Rightarrow> ghost \<Rightarrow> bool" where
  "grows s g s' g' \<longleftrightarrow>
     node_count s \<le> node_count s' \<and> live g' \<subseteq> live g \<union> {a. node_count s \<le> a} \<and>
     (\<forall>a. a < node_count s \<longrightarrow> a \<notin> live g \<longrightarrow> node_at s' a = node_at s a)"

text \<open>The suffix links of the nodes of the tree lead to nodes of the tree.\<close>

definition links_live :: "suffix_tree \<Rightarrow> ghost \<Rightarrow> bool" where
  "links_live s g \<longleftrightarrow> (\<forall>v \<in> live g. \<forall>l. slink s v = Some l \<longrightarrow> l \<in> live g)"

lemma grows_refl [simp]: "grows s g s g"
  by (simp add: grows_def)

lemma grows_trans:
  assumes "grows s g s1 g1" "grows s1 g1 s2 g2"
  shows "grows s g s2 g2"
proof -
  have "node_at s2 a = node_at s a" if a: "a < node_count s" "a \<notin> live g" for a
  proof -
    from a assms(1) have "a \<notin> live g1" "a < node_count s1" by (auto simp: grows_def)
    with assms a show ?thesis by (simp add: grows_def)
  qed
  moreover have "live g2 \<subseteq> live g \<union> {a. node_count s \<le> a}"
    using assms by (fastforce simp: grows_def)
  ultimately show ?thesis using assms by (simp add: grows_def)
qed

lemma node_at_setActivePoint [simp]: "node_at (setActivePoint pos s) = node_at s"
  by (auto simp: setActivePoint_def Let_def)

lemma node_at_newLeaf:
  "a \<noteq> activeNode s \<Longrightarrow> a \<noteq> node_count s \<Longrightarrow> lastCreatedNode s \<noteq> Some a
     \<Longrightarrow> node_at (newLeaf pos k s) a = node_at s a"
  by (auto simp: newLeaf_def Let_def split: option.splits)

lemma node_at_showStopper:
  "lastCreatedNode s \<noteq> Some a \<Longrightarrow> node_at (showStopper s) a = node_at s a"
  by (auto simp: showStopper_def Let_def split: option.splits)

lemma node_at_split_state:
  "a \<noteq> activeNode s \<Longrightarrow> a \<noteq> nx \<Longrightarrow> a \<noteq> node_count s \<Longrightarrow> a \<noteq> Suc (node_count s)
     \<Longrightarrow> lastCreatedNode s \<noteq> Some a
     \<Longrightarrow> node_at (split_state pos k nx s) a = node_at s a"
  by (auto simp: split_state_def Let_def split: option.splits)

lemma extend_step_inv:
  assumes L0: "loop_inv s0 g i" and r0: "1 \<le> remainingSuffixCount s0"
  shows "(\<exists>s' g'. extend_step i s0 = Continue s' \<and> loop_inv s' g' i \<and>
            tree_text s' = tree_text s0 \<and> grows s0 g s' g' \<and>
            (links_live s0 g \<longrightarrow> links_live s' g') \<and>
            (remainingSuffixCount s' < remainingSuffixCount s0 \<or>
             remainingSuffixCount s' = remainingSuffixCount s0 \<and>
               activeLength s' < activeLength s0)) \<or>
         (\<exists>s' p. extend_step i s0 = Break s' \<and> post_inv s' g i \<and>
            tree_text s' = tree_text s0 \<and> grows s0 g s' g \<and>
            (links_live s0 g \<longrightarrow> links_live s' g) \<and> 0 \<le> p \<and> p < i \<and> tch (tree_text s0) p = tch (tree_text s0) i)"
proof -
  define s where "s = fix_edge i s0"
  define k where "k = charToIndex (tch (tree_text s) (i - activeLength s))"
  have L: "loop_inv s g i" and ae: "activeEdge s = i - activeLength s"
    using fix_edge_loop[OF L0 r0] by (simp_all add: s_def)
  have r: "1 \<le> remainingSuffixCount s" using r0 by (simp add: s_def)
  note F = loop_facts[OF L r]
  have lcl: "lastCreatedNode s \<noteq> Some a" if "a \<notin> live g" for a
    using F(10) that by (auto simp: pend_inv_def)
  have anl: "a \<noteq> activeNode s" if "a \<notin> live g" for a using F(11) that by auto
  have lcv: "lc \<in> live g" if "lastCreatedNode s = Some lc" for lc
    using F(10) that by (auto simp: pend_inv_def)
  have ll: "l \<in> live g" if "links_live s0 g" "v \<in> live g" "slink s v = Some l" for v l
    using that by (auto simp: links_live_def s_def)
  have rng: "0 \<le> i - activeLength s" "i - activeLength s < int (length (tree_text s))"
    using F(4,6,13,14,17) by simp_all
  have ca: "charAt (tree_text s) (activeEdge s) = Some (tch (tree_text s) (i - activeLength s))"
    unfolding ae by (rule charAt_tch[OF rng])
  have ci: "charAt (tree_text s) i = Some (tch (tree_text s) i)"
    using F(4,5,6) by (intro charAt_tch) simp_all
  have step: "extend_step i s0 =
     (case kid s (activeNode s) k of
        None \<Rightarrow> Continue (setActivePoint i (newLeaf i k s))
      | Some nextNode \<Rightarrow>
          (case walkDown nextNode s of
             (True, s') \<Rightarrow> Continue s'
           | (False, _) \<Rightarrow>
               if charAt (tree_text s) (nstart s nextNode + activeLength s)
                    = charAt (tree_text s) i
               then Break (showStopper s)
               else (case splitEdge i k nextNode s of
                       Inl e \<Rightarrow> Throw e
                     | Inr s' \<Rightarrow> Continue (setActivePoint i s'))))"
    unfolding extend_step_def fix_edge_def[symmetric] s_def[symmetric] Let_def ca
      k_def kid_def nstart_def by simp
  show ?thesis
  proof (cases "kid s (activeNode s) k")
    case None
    define g' where "g' = g\<lparr>live := insert (node_count s) (live g),
                    par := (par g)(node_count s := activeNode s),
                    hpos := (hpos g)(node_count s := i - remainingSuffixCount s + 1)\<rparr>"
    define s' where "s' = setActivePoint i (newLeaf i k s)"
    have "mid_inv (newLeaf i k s) g' i"
      unfolding k_def g'_def using None by (intro newLeaf_mid[OF L r ae]) (simp add: k_def)
    then have "loop_inv s' g' i" unfolding s'_def by (rule setActivePoint_loop)
    moreover have "remainingSuffixCount s' < remainingSuffixCount s0"
      using setActivePoint_effect(10)[OF s'_def] by (simp add: newLeaf_fields s_def)
    moreover have "extend_step i s0 = Continue s'" using None by (simp add: step s'_def)
    moreover have "tree_text s' = tree_text s0"
      using setActivePoint_effect(6)[OF s'_def] by (simp add: newLeaf_fields s_def)
    moreover have "grows s0 g s' g'"
      unfolding grows_def
    proof (intro conjI allI impI)
      show "node_count s0 \<le> node_count s'"
        using setActivePoint_effect(1)[OF s'_def] by (simp add: newLeaf_fields s_def)
      show "live g' \<subseteq> live g \<union> {a. node_count s0 \<le> a}" by (auto simp: g'_def s_def)
      fix a assume a: "a < node_count s0" "a \<notin> live g"
      then have "a \<noteq> node_count s" by (simp add: s_def)
      with a have "node_at s' a = node_at s a"
        using lcl[of a] anl[of a] by (simp add: s'_def node_at_newLeaf)
      then show "node_at s' a = node_at s0 a" by (simp add: s_def)
    qed
    moreover have "links_live s' g'" if A: "links_live s0 g"
      unfolding links_live_def
    proof (intro ballI allI impI)
      fix v l assume v: "v \<in> live g'" "slink s' v = Some l"
      have sl: "slink s' = slink (newLeaf i k s)" by (rule setActivePoint_effect(5)[OF s'_def])
      have "l \<in> live g"
      proof (cases "lastCreatedNode s")
        case None
        with v ll[OF A, of v l] show ?thesis
          by (auto simp: sl newLeaf_acc g'_def split: if_splits)
      next
        case (Some lc)
        with v ll[OF A, of v l] F(11) show ?thesis
          by (auto simp: sl newLeaf_acc g'_def split: if_splits)
      qed
      then show "l \<in> live g'" by (simp add: g'_def)
    qed
    ultimately show ?thesis by blast
  next
    case (Some nx)
    then have n: "kid s (activeNode s) (charToIndex (tch (tree_text s) (i - activeLength s)))
        = Some nx" by (simp add: k_def)
    note N = child_at_active[OF L r n]
    show ?thesis
    proof (cases "edgeLength (node_at s nx) (leafEnd s) \<le> activeLength s")
      case True
      define s' where "s' = s\<lparr>activeEdge := activeEdge s + edgeLength (node_at s nx) (leafEnd s),
          activeLength := activeLength s - edgeLength (node_at s nx) (leafEnd s),
          activeNode := nx\<rparr>"
      note W = walkDown_loop[OF L r ae n True, folded s'_def]
      have "walkDown nx s = (True, s')" using True by (simp add: walkDown_def Let_def s'_def)
      then have "extend_step i s0 = Continue s'" using Some by (simp add: step)
      moreover have "remainingSuffixCount s' = remainingSuffixCount s0"
        "activeLength s' < activeLength s0" using W(3,4) by (simp_all add: s_def)
      moreover have "tree_text s' = tree_text s0" by (simp add: s'_def s_def)
      moreover have "grows s0 g s' g" by (simp add: grows_def s'_def s_def)
      moreover have "links_live s0 g \<longrightarrow> links_live s' g"
        by (simp add: links_live_def s'_def s_def acc_fields)
      ultimately show ?thesis using W(1) by blast
    next
      case False
      then have w: "activeLength s < edgeLength (node_at s nx) (leafEnd s)" by simp
      have wd: "walkDown nx s = (False, s)" using False by (simp add: walkDown_def Let_def)
      have dl: "i - (i - remainingSuffixCount s + 1) < dep s g nx"
        using w N(8) F(14) by simp
      note hl = N(12)[OF dl]
      have h0: "0 \<le> hpos g nx" by (rule label_in_text(1)[OF F(1) N(1)])
      have p: "0 \<le> nstart s nx + activeLength s" "nstart s nx + activeLength s < i"
        using N(11) hl h0 F(5) by simp_all
      have cn: "charAt (tree_text s) (nstart s nx + activeLength s)
          = Some (tch (tree_text s) (nstart s nx + activeLength s))"
        using p F(6) by (intro charAt_tch) simp_all
      show ?thesis
      proof (cases "tch (tree_text s) (nstart s nx + activeLength s) = tch (tree_text s) i")
        case True
        have "post_inv (showStopper s) g i" by (rule break_post[OF L r ae n w True])
        moreover have "extend_step i s0 = Break (showStopper s)"
          using Some wd True by (simp add: step cn ci)
        moreover have "tch (tree_text s0) (nstart s nx + activeLength s) = tch (tree_text s0) i"
          using True by (simp add: s_def)
        moreover have "tree_text (showStopper s) = tree_text s0"
          by (simp add: showStopper_fields s_def)
        moreover have "grows s0 g (showStopper s) g"
        proof -
          have "node_at (showStopper s) a = node_at s0 a" if "a \<notin> live g" for a
            using lcl[OF that] node_at_showStopper[of s a] by (simp add: s_def)
          then show ?thesis by (simp add: grows_def showStopper_fields s_def)
        qed
        moreover have "links_live (showStopper s) g" if A: "links_live s0 g"
          unfolding links_live_def
        proof (intro ballI allI impI)
          fix v l assume v: "v \<in> live g" "slink (showStopper s) v = Some l"
          show "l \<in> live g"
          proof (cases "lastCreatedNode s")
            case None
            with v ll[OF A, of v l] show ?thesis by (simp add: showStopper_acc)
          next
            case (Some lc)
            with v ll[OF A, of v l] F(11) show ?thesis
              by (auto simp: showStopper_acc split: if_splits)
          qed
        qed
        ultimately show ?thesis using p by blast
      next
        case m: False
        define g' where "g' = g\<lparr>live := insert (node_count s) (insert (Suc (node_count s)) (live g)),
                    par := (par g)(node_count s := activeNode s,
                                   Suc (node_count s) := node_count s, nx := node_count s),
                    hpos := (hpos g)(node_count s := hpos g nx,
                                     Suc (node_count s) := i - remainingSuffixCount s + 1)\<rparr>"
        define s' where "s' = setActivePoint i (split_state i k nx s)"
        have "mid_inv (split_state i k nx s) g' i"
          unfolding k_def g'_def by (rule split_mid[OF L r ae n w m])
        then have "loop_inv s' g' i" unfolding s'_def by (rule setActivePoint_loop)
        moreover have "remainingSuffixCount s' < remainingSuffixCount s0"
          using setActivePoint_effect(10)[OF s'_def] by (simp add: split_state_fields s_def)
        moreover have "splitEdge i k nx s = Inr (split_state i k nx s)"
          using N(9,10) F(4,5,6) p by (intro splitEdge_eq) simp_all
        then have "extend_step i s0 = Continue s'"
          using Some wd m by (simp add: step cn ci s'_def)
        moreover have "tree_text s' = tree_text s0"
          using setActivePoint_effect(6)[OF s'_def] by (simp add: split_state_fields s_def)
        moreover have "grows s0 g s' g'"
          unfolding grows_def
        proof (intro conjI allI impI)
          show "node_count s0 \<le> node_count s'"
            using setActivePoint_effect(1)[OF s'_def] by (simp add: split_state_fields s_def)
          show "live g' \<subseteq> live g \<union> {a. node_count s0 \<le> a}" by (auto simp: g'_def s_def)
          fix a assume a: "a < node_count s0" "a \<notin> live g"
          with N(1) have "a \<noteq> nx" by auto
          moreover from a have "a \<noteq> node_count s" "a \<noteq> Suc (node_count s)"
            by (simp_all add: s_def)
          ultimately have "node_at s' a = node_at s a"
            using a lcl[of a] anl[of a] by (simp add: s'_def node_at_split_state)
          then show "node_at s' a = node_at s0 a" by (simp add: s_def)
        qed
        moreover have "links_live s' g'" if A: "links_live s0 g"
          unfolding links_live_def
        proof (intro ballI allI impI)
          fix v l assume v: "v \<in> live g'" "slink s' v = Some l"
          have sl: "slink s' = slink (split_state i k nx s)"
            by (rule setActivePoint_effect(5)[OF s'_def])
          have lt: "nx < node_count s" "activeNode s < node_count s"
            using struct_fresh[OF F(1) N(1)] struct_fresh[OF F(1) F(11)] by simp_all
          show "l \<in> live g'"
          proof (cases "lastCreatedNode s")
            case None
            with v ll[OF A, of v l] show ?thesis
              by (auto simp: sl split_state_acc[OF lt] g'_def split: if_splits)
          next
            case (Some lc)
            with v ll[OF A, of v l] show ?thesis
              by (auto simp: sl split_state_acc[OF lt] g'_def split: if_splits)
          qed
        qed
        ultimately show ?thesis by blast
      qed
    qed
  qed
qed

lemma loop_inv_nonneg:
  assumes "loop_inv s g i"
  shows "0 \<le> remainingSuffixCount s" "0 \<le> activeLength s"
  using assms by (auto simp: loop_inv_def ap_inv_def split: if_splits)

lemma extend_loop_total:
  assumes "loop_inv s g i"
  shows "\<exists>s' g'. extend_loop i s = Some (Inr s') \<and> post_inv s' g' i \<and>
           tree_text s' = tree_text s \<and> grows s g s' g' \<and>
           (links_live s g \<longrightarrow> links_live s' g') \<and>
           ((\<forall>p. 0 \<le> p \<and> p < i \<longrightarrow> tch (tree_text s) p \<noteq> tch (tree_text s) i)
              \<longrightarrow> remainingSuffixCount s' = 0)"
proof -
  have "wf (inv_image (less_than <*lex*> less_than)
          (\<lambda>s. (nat (remainingSuffixCount s), nat (activeLength s))))"
    by (intro wf_inv_image wf_lex_prod wf_less_than)
  then show ?thesis using assms
  proof (induct s arbitrary: g rule: wf_induct_rule)
    case (less s)
    note L = less.prems
    show ?case
    proof (cases "remainingSuffixCount s > 0")
      case False
      with loop_inv_nonneg(1)[OF L] have z: "remainingSuffixCount s = 0" by simp
      from loop_exit[OF L z] z show ?thesis by (subst extend_loop.simps) auto
    next
      case True
      then have r: "1 \<le> remainingSuffixCount s" by simp
      from extend_step_inv[OF L r] consider
        (c) s' g' where "extend_step i s = Continue s'" "loop_inv s' g' i"
          "tree_text s' = tree_text s"
          "remainingSuffixCount s' < remainingSuffixCount s \<or>
             remainingSuffixCount s' = remainingSuffixCount s \<and> activeLength s' < activeLength s"
          "grows s g s' g'" "links_live s g \<longrightarrow> links_live s' g'"
        | (b) s' p where "extend_step i s = Break s'" "post_inv s' g i"
          "tree_text s' = tree_text s" "0 \<le> p" "p < i"
          "tch (tree_text s) p = tch (tree_text s) i" "grows s g s' g"
          "links_live s g \<longrightarrow> links_live s' g"
        by blast
      then show ?thesis
      proof cases
        case c
        from c(4) loop_inv_nonneg[OF c(2)] have "(s', s) \<in> inv_image (less_than <*lex*> less_than)
          (\<lambda>s. (nat (remainingSuffixCount s), nat (activeLength s)))" by auto
        from less.hyps[OF this c(2)] obtain s2 g2 where
          e: "extend_loop i s' = Some (Inr s2)" "post_inv s2 g2 i" "tree_text s2 = tree_text s'"
            "grows s' g' s2 g2" "links_live s' g' \<longrightarrow> links_live s2 g2"
            "(\<forall>p. 0 \<le> p \<and> p < i \<longrightarrow> tch (tree_text s') p \<noteq> tch (tree_text s') i)
              \<longrightarrow> remainingSuffixCount s2 = 0" by blast
        have "extend_loop i s = Some (Inr s2)"
          using e(1) c(1) True by (subst extend_loop.simps) simp
        with e(2,3,5,6) c(3,6) grows_trans[OF c(5) e(4)] show ?thesis by auto
      next
        case b
        with True show ?thesis by (subst extend_loop.simps) auto
      qed
    qed
  qed
qed

definition frame :: "suffix_tree \<Rightarrow> suffix_tree \<Rightarrow> ghost \<Rightarrow> bool" where
  "frame s s' g \<longleftrightarrow>
     same_tree s s' g \<and> (\<forall>v \<in> live g. slink s' v = slink s v) \<and>
     activeNode s' = activeNode s \<and> activeLength s' = activeLength s \<and>
     activeEdge s' = activeEdge s \<and> remainingSuffixCount s' = remainingSuffixCount s \<and>
     lastCreatedNode s' = lastCreatedNode s"

lemma frame_refl [simp]: "frame s s g"
  by (simp add: frame_def)

lemma frame_same: "frame s s' g \<Longrightarrow> same_tree s s' g"
  by (simp add: frame_def)

lemma frame_fields:
  assumes "frame s s' g"
  shows "tree_text s' = tree_text s" "root s' = root s" "leafEnd s' = leafEnd s"
    "activeNode s' = activeNode s" "activeLength s' = activeLength s"
    "activeEdge s' = activeEdge s" "remainingSuffixCount s' = remainingSuffixCount s"
    "lastCreatedNode s' = lastCreatedNode s" "node_count s \<le> node_count s'"
  using assms by (simp_all add: frame_def same_tree_def)

lemma frame_alloc:
  assumes "frame s s1 g" "\<forall>v \<in> live g. v < node_count s"
  shows "frame s (alloc n s1) g"
proof -
  have "v \<noteq> node_count s1" if "v \<in> live g" for v
    using assms that frame_fields(9)[OF assms(1)] by fastforce
  with assms(1) show ?thesis
    by (simp add: frame_def same_tree_def acc_alloc)
qed

lemma frame_set_child:
  assumes "frame s s1 g" "u \<notin> live g"
  shows "frame s (set_child u k c s1) g"
proof -
  have "v \<noteq> u" if "v \<in> live g" for v using assms(2) that by auto
  with assms(1) show ?thesis
    by (simp add: frame_def same_tree_def acc_set_child)
qed

lemma acc_upd_index:
  "nstart (upd_node v (\<lambda>n. n\<lparr>suffixIndex := f n\<rparr>) s) = nstart s"
  "nend (upd_node v (\<lambda>n. n\<lparr>suffixIndex := f n\<rparr>) s) = nend s"
  "kid (upd_node v (\<lambda>n. n\<lparr>suffixIndex := f n\<rparr>) s) = kid s"
  "slink (upd_node v (\<lambda>n. n\<lparr>suffixIndex := f n\<rparr>) s) = slink s"
  by (auto simp: acc_defs fun_eq_iff)

lemma frame_upd_index:
  assumes "frame s s1 g"
  shows "frame s (upd_node v (\<lambda>n. n\<lparr>suffixIndex := f n\<rparr>) s1) g"
  using assms by (simp add: frame_def same_tree_def acc_upd_index)

lemma frame_steps:
  assumes "frame s s1 g"
  shows "frame s (s1\<lparr>steps := x\<rparr>) g"
  using assms by (simp add: frame_def same_tree_def acc_fields)

lemma frame_post:
  assumes F: "frame s s' g" and P: "post_inv s g i"
  shows "post_inv s' g i"
proof -
  note T = frame_same[OF F]
  note f = frame_fields[OF F]
  note a = same_tree_acc[OF T]
  from P have S: "struct_inv s g" by (simp add: post_inv_def)
  have "link_inv s' g None"
    unfolding link_inv_def
  proof (intro ballI impI)
    fix v assume v: "v \<in> live g" "v \<noteq> root s'" "nend s' v \<noteq> None" "Some v \<noteq> None"
    with P a(2)[OF v(1)] f have "link_ok s g v" by (simp add: post_inv_def link_inv_def)
    moreover have "link_target s' v = link_target s v"
      using F v(1) f by (simp add: link_target_def frame_def cong: option.case_cong)
    ultimately show "link_ok s' g v" using v(1) by (intro same_tree_link_ok[OF T])
  qed
  moreover have "ap_inv s' g (i + 1) (remainingSuffixCount s')"
    using P a[of "activeNode s"] f by (simp add: post_inv_def ap_inv_def)
  ultimately show ?thesis
    using P same_tree_struct[OF T] same_tree_leaf[OF T] same_tree_complete[OF T] f
    by (simp add: post_inv_def)
qed

lemma frame_links:
  assumes "frame s s' g" "links_live s g"
  shows "links_live s' g"
  using assms by (simp add: links_live_def frame_def)

text \<open>The induction behind every traversal of the tree.\<close>

lemma dfs_induct [consumes 3, case_names base none some]:
  assumes S: "struct_inv s g" and nd: "nd \<in> live g" and i: "i \<le> 27"
    and base: "\<And>v. v \<in> live g \<Longrightarrow> P v 27"
    and none: "\<And>v i. v \<in> live g \<Longrightarrow> i < 27 \<Longrightarrow> kid s v (int i) = None
                \<Longrightarrow> P v (Suc i) \<Longrightarrow> P v i"
    and some: "\<And>v i c. v \<in> live g \<Longrightarrow> i < 27 \<Longrightarrow> kid s v (int i) = Some c
                \<Longrightarrow> c \<in> live g \<Longrightarrow> P c 0 \<Longrightarrow> P v (Suc i) \<Longrightarrow> P v i"
  shows "P nd (i::nat)"
proof -
  define m where "m = (\<lambda>(v, i::nat). (nat (leafEnd s + 1 - dep s g v), 27 - i))"
  have "wf (inv_image (less_than <*lex*> less_than) m)"
    by (intro wf_inv_image wf_lex_prod wf_less_than)
  then have "fst x \<in> live g \<longrightarrow> snd x \<le> 27 \<longrightarrow> P (fst x) (snd x)" for x
  proof (induct x rule: wf_induct_rule)
    case (less x)
    obtain v i where x: "x = (v, i)" by (cases x)
    show ?case
    proof (intro impI)
      assume "fst x \<in> live g" "snd x \<le> 27"
      then have v: "v \<in> live g" and i: "i \<le> 27" by (simp_all add: x)
      show "P (fst x) (snd x)"
      proof (cases "i = 27")
        case True
        with base[OF v] show ?thesis by (simp add: x)
      next
        case False
        with i have i': "i < 27" by simp
        have "((v, Suc i), x) \<in> inv_image (less_than <*lex*> less_than) m"
          using i' by (simp add: x m_def)
        from less[OF this] v i' have n: "P v (Suc i)" by simp
        show ?thesis
        proof (cases "kid s v (int i)")
          case None
          from none[OF v i' None n] show ?thesis by (simp add: x)
        next
          case (Some c)
          note k = struct_kidD[OF S v Some] kid_dep(1)[OF S v Some]
          have "dep s g c \<le> leafEnd s + 1"
            using label_in_text[OF S k(1)] by simp
          with k(5) have "((c, 0), x) \<in> inv_image (less_than <*lex*> less_than) m"
            by (simp add: x m_def)
          from less[OF this] k(1) have "P c 0" by simp
          from some[OF v i' Some k(1) this n] show ?thesis by (simp add: x)
        qed
      qed
    qed
  qed
  from this[of "(nd, i)"] nd i show ?thesis by simp
qed

lemma cloneNode_from_total:
  assumes S: "struct_inv s g" and nd: "nd \<in> live g" and i: "i \<le> 27"
  shows "\<forall>newNode s1. frame s s1 g \<longrightarrow> newNode \<notin> live g \<longrightarrow>
           (\<exists>s'. cloneNode_from nd newNode i s1 = Some s' \<and> frame s s' g)"
  using S nd i
proof (induct rule: dfs_induct)
  case (base v)
  show ?case by (subst cloneNode_from.simps) simp
next
  case (none v i)
  show ?case
  proof (intro allI impI)
    fix newNode s1 assume F: "frame s s1 g" and n: "newNode \<notin> live g"
    have "children (node_at s1 v) (int i) = None"
      using same_tree_acc(3)[OF frame_same[OF F] none(1)] none(3) by (simp add: acc_fold)
    with none(2,4) F n show "\<exists>s'. cloneNode_from v newNode i s1 = Some s' \<and> frame s s' g"
      by (subst cloneNode_from.simps) simp
  qed
next
  case (some v i c)
  show ?case
  proof (intro allI impI)
    fix newNode s1 assume F: "frame s s1 g" and n: "newNode \<notin> live g"
    have k: "children (node_at s1 v) (int i) = Some c"
      using same_tree_acc(3)[OF frame_same[OF F] some(1)] some(3) by (simp add: acc_fold)
    have fr: "\<forall>v \<in> live g. v < node_count s" using S by (simp add: struct_inv_def)
    have nc: "node_count s1 \<notin> live g" using fr frame_fields(9)[OF F] by fastforce
    from some(5) frame_alloc[OF F fr] nc obtain s2 where
      s2: "cloneNode_from c (node_count s1) 0 (alloc (clone_fields (node_at s1 c)) s1) = Some s2"
        "frame s s2 g" by blast
    from some(6) frame_set_child[OF s2(2) n] n obtain s3 where
      "cloneNode_from v newNode (Suc i) (set_child newNode (int i) (node_count s1) s2) = Some s3"
      "frame s s3 g" by blast
    with some(2) k s2(1) show "\<exists>s'. cloneNode_from v newNode i s1 = Some s' \<and> frame s s' g"
      by (subst cloneNode_from.simps) simp
  qed
qed

lemma recordStep_total:
  assumes S: "struct_inv s g"
  shows "\<exists>s'. recordStep msg s = Some s' \<and> frame s s' g"
proof -
  have fr: "\<forall>v \<in> live g. v < node_count s" using S by (simp add: struct_inv_def)
  then have "node_count s \<notin> live g" by fastforce
  with cloneNode_from_total[OF S struct_rootD(1)[OF S], of 0] frame_alloc[OF frame_refl fr]
  obtain s1 where "cloneNode_from (root s) (node_count s) 0
      (alloc (clone_fields (node_at s (root s))) s) = Some s1" "frame s s1 g"
    by (metis zero_le)
  then show ?thesis
    by (auto simp: recordStep_def cloneNode_def intro: frame_steps)
qed

definition fresh_at :: "string \<Rightarrow> int \<Rightarrow> bool" where
  "fresh_at t i \<longleftrightarrow> (\<forall>p. 0 \<le> p \<and> p < i \<longrightarrow> tch t p \<noteq> tch t i)"

lemma extendSuffixTree_total:
  assumes P: "post_inv s g (i - 1)" and i: "i < int (length (tree_text s))"
  shows "\<exists>s' g'. extendSuffixTree i s = Some (Inr s') \<and> post_inv s' g' i \<and>
           tree_text s' = tree_text s \<and> grows s g s' g' \<and>
           (links_live s g \<longrightarrow> links_live s' g') \<and>
           (fresh_at (tree_text s) i \<longrightarrow> remainingSuffixCount s' = 0)"
  using extend_loop_total[OF phase_start[OF P i]]
  by (simp add: extendSuffixTree_def fresh_at_def grows_def links_live_def acc_fields)

lemma build_phases_total:
  assumes "post_inv s g (int i - 1)" "n = length (tree_text s)" "i \<le> n"
    "i < n \<or> remainingSuffixCount s = 0"
  shows "\<exists>s' g'. build_phases [i ..< n] s = Some (Inr s') \<and> post_inv s' g' (int n - 1) \<and>
           tree_text s' = tree_text s \<and>
           (fresh_at (tree_text s) (int n - 1) \<longrightarrow> remainingSuffixCount s' = 0)"
  using assms
proof (induct "n - i" arbitrary: i s g)
  case 0
  then show ?case by auto
next
  case (Suc d)
  then have lt: "i < n" by simp
  then have "int i < int (length (tree_text s))" using Suc.prems(2) by simp
  from extendSuffixTree_total[OF _ this, of g] Suc.prems(1) obtain s1 g1 where
    e: "extendSuffixTree (int i) s = Some (Inr s1)" "post_inv s1 g1 (int i)"
      "tree_text s1 = tree_text s"
      "fresh_at (tree_text s) (int i) \<longrightarrow> remainingSuffixCount s1 = 0" by auto
  from e(2) have S1: "struct_inv s1 g1" by (simp add: post_inv_def)
  from recordStep_total[OF S1] obtain s2 where
    r: "recordStep (charAt (tree_text s1) (int i), int i) s1 = Some s2" "frame s1 s2 g1"
    by blast
  note f = frame_fields[OF r(2)]
  have P2: "post_inv s2 g1 (int (Suc i) - 1)" using frame_post[OF r(2) e(2)] by simp
  have "Suc i < n \<or> remainingSuffixCount s2 = 0 \<or> \<not> fresh_at (tree_text s) (int n - 1)"
    using e(4) lt f(7) by (cases "Suc i = n") auto
  show ?case
  proof (cases "Suc i < n \<or> remainingSuffixCount s2 = 0")
    case True
    have "d = n - Suc i" using Suc.hyps(2) by simp
    from Suc.hyps(1)[OF this P2 _ _ True] Suc.prems(2) lt f(1) e(3) obtain s' g' where
      "build_phases [Suc i ..< n] s2 = Some (Inr s')" "post_inv s' g' (int n - 1)"
      "tree_text s' = tree_text s"
      "fresh_at (tree_text s) (int n - 1) \<longrightarrow> remainingSuffixCount s' = 0" by auto
    with e(1) r(1) lt show ?thesis by (auto simp: upt_conv_Cons)
  next
    case False
    with lt have n: "n = Suc i" by simp
    with False e(4) f(7) have nf: "\<not> fresh_at (tree_text s) (int n - 1)" by auto
    from e(1) r(1) n P2 f(1) e(3) nf show ?thesis by (auto simp: upt_conv_Cons)
  qed
qed

definition ghost0 :: ghost where
  "ghost0 = \<lparr>live = {0}, par = (\<lambda>_. 0), hpos = (\<lambda>_. 0)\<rparr>"

lemma init_post:
  assumes "inj_on charToIndex (set t)"
  shows "post_inv (init_tree t) ghost0 (- 1)"
proof -
  have a: "nend (init_tree t) 0 = Some (- 1)" "\<And>k. kid (init_tree t) 0 k = None"
    "root (init_tree t) = 0" "leafEnd (init_tree t) = - 1" "tree_text (init_tree t) = t"
    "activeNode (init_tree t) = 0" "activeLength (init_tree t) = 0"
    "remainingSuffixCount (init_tree t) = 0" "node_count (init_tree t) = 1"
    by (simp_all add: init_tree_def acc_defs node_at_def new_Node_def)
  have d: "dep (init_tree t) ghost0 0 = 0" by (simp add: dep_def eend_def a ghost0_def)
  have "struct_inv (init_tree t) ghost0"
    by (simp add: struct_inv_def a ghost0_def kids_ok_def)
  moreover have "leaf_inv (init_tree t) ghost0 0"
    by (simp add: leaf_inv_def a ghost0_def)
  moreover have "complete (init_tree t) ghost0 0"
    using d by (simp add: complete_def ghost0_def)
  moreover have "link_inv (init_tree t) ghost0 None"
    by (simp add: link_inv_def a ghost0_def)
  moreover have "ap_inv (init_tree t) ghost0 0 0"
    using d by (simp add: ap_inv_def a ghost0_def)
  ultimately show ?thesis using assms by (simp add: post_inv_def a)
qed

lemma init_links: "links_live (init_tree t) ghost0"
  by (simp add: links_live_def ghost0_def init_tree_def slink_def node_at_def new_Node_def)

lemma buildSuffixTreeStepByStep_total:
  assumes "inj_on charToIndex (set t)"
  shows "\<exists>s g. buildSuffixTreeStepByStep t = Some (Inr s) \<and>
           post_inv s g (int (length t) - 1) \<and> tree_text s = t \<and>
           (fresh_at t (int (length t) - 1) \<longrightarrow> remainingSuffixCount s = 0)"
proof -
  have t: "tree_text (init_tree t) = t" "remainingSuffixCount (init_tree t) = 0"
    by (simp_all add: init_tree_def)
  from build_phases_total[of "init_tree t" ghost0 0 "length t"] init_post[OF assms] t
  show ?thesis by (simp add: buildSuffixTreeStepByStep_def)
qed

definition sidx :: "suffix_tree \<Rightarrow> nat \<Rightarrow> int" where
  "sidx s v = suffixIndex (node_at s v)"

definition idx_ok :: "string \<Rightarrow> bool" where
  "idx_ok t \<longleftrightarrow> (\<forall>c \<in> set t. 0 \<le> charToIndex c \<and> charToIndex c < 27)"

definition below :: "suffix_tree \<Rightarrow> ghost \<Rightarrow> nat \<Rightarrow> nat \<Rightarrow> bool" where
  "below s g u v \<longleftrightarrow>
     dep s g u \<le> dep s g v \<and> agree (tree_text s) (hpos g u) (hpos g v) (dep s g u)"

definition sub :: "suffix_tree \<Rightarrow> ghost \<Rightarrow> nat \<Rightarrow> nat \<Rightarrow> nat \<Rightarrow> bool" where
  "sub s g nd i v \<longleftrightarrow>
     (\<exists>k c. i \<le> k \<and> k < 27 \<and> kid s nd (int k) = Some c \<and> below s g c v)"

lemma below_refl [simp]: "below s g v v"
  by (simp add: below_def)

lemma below_trans: "below s g u v \<Longrightarrow> below s g v w \<Longrightarrow> below s g u w"
  unfolding below_def by (auto intro: agree_trans)

lemma below_kid:
  assumes "struct_inv s g" "v \<in> live g" "kid s v k = Some c"
  shows "below s g v c"
  using kid_dep[OF assms] by (simp add: below_def)

lemma kid_key_range:
  assumes S: "struct_inv s g" and I: "idx_ok (tree_text s)" and v: "v \<in> live g"
    and k: "kid s v k = Some c"
  shows "\<exists>i < 27. k = int i"
proof -
  note q = struct_kidD[OF S v k]
  note e = struct_edgeD[OF S q(1,2)]
  have "0 \<le> nstart s c" "nstart s c < int (length (tree_text s))"
    using e(3,4,5,6,7) struct_rootD(6)[OF S] by simp_all
  then have "tch (tree_text s) (nstart s c) \<in> set (tree_text s)" by (rule tch_in_set)
  with I q(4) have "0 \<le> k" "k < 27" by (auto simp: idx_ok_def first_key_def)
  then show ?thesis by (intro exI[of _ "nat k"]) simp
qed

lemma below_sub:
  assumes S: "struct_inv s g" and I: "idx_ok (tree_text s)"
    and u: "u \<in> live g" and v: "v \<in> live g" and b: "below s g u v" and ne: "u \<noteq> v"
  shows "sub s g u 0 v"
proof -
  from b have le: "dep s g u \<le> dep s g v"
    and a: "agree (tree_text s) (hpos g u) (hpos g v) (dep s g u)" by (simp_all add: below_def)
  have "dep s g u \<noteq> dep s g v" using label_inj[OF S u v _ a] ne by auto
  with le have "dep s g u < dep s g v" by simp
  from descent[OF S u v this a] obtain c k where
    c: "kid s u k = Some c" "anc s g c v" by blast
  from kid_key_range[OF S I u c(1)] obtain i where "i < 27" "k = int i" by blast
  with c anc_prefix[OF S c(2)] show ?thesis by (auto simp: sub_def below_def)
qed

lemma sub_disjoint:
  assumes S: "struct_inv s g" and v: "v \<in> live g" and k: "kid s v k = Some c"
    "kid s v k' = Some c'" and b: "below s g c w" "below s g c' w"
  shows "k = k'"
proof -
  note d = kid_dep[OF S v k(1)] kid_dep[OF S v k(2)]
  from b d(1,5) have "tch (tree_text s) (hpos g c + dep s g v) = tch (tree_text s) (hpos g w + dep s g v)"
    "tch (tree_text s) (hpos g c' + dep s g v) = tch (tree_text s) (hpos g w + dep s g v)"
    using dep_nonneg[OF S v] by (auto simp: below_def intro!: agreeD)
  with d(4,8) show ?thesis by simp
qed

lemma sub_below:
  assumes S: "struct_inv s g" and v: "v \<in> live g" and "sub s g v i w"
  shows "below s g v w" "w \<noteq> v"
proof -
  from assms(3) obtain k c where c: "kid s v (int k) = Some c" "below s g c w"
    by (auto simp: sub_def)
  from below_trans[OF below_kid[OF S v c(1)] c(2)] show "below s g v w" .
  from c(2) kid_dep(1)[OF S v c(1)] show "w \<noteq> v" by (auto simp: below_def)
qed

lemma sub_step:
  assumes "kid s v (int i) = Some c" "i < 27"
  shows "sub s g v i w \<longleftrightarrow> below s g c w \<or> sub s g v (Suc i) w"
proof -
  have "i \<le> k \<longleftrightarrow> k = i \<or> Suc i \<le> k" for k by auto
  with assms show ?thesis unfolding sub_def by auto
qed

lemma sub_skip:
  assumes "kid s v (int i) = None"
  shows "sub s g v i w \<longleftrightarrow> sub s g v (Suc i) w"
proof -
  have "i \<le> k \<longleftrightarrow> k = i \<or> Suc i \<le> k" for k by auto
  with assms show ?thesis unfolding sub_def by auto
qed

lemma sub_end [simp]: "\<not> sub s g v 27 w"
  by (auto simp: sub_def)

lemma sidx_upd:
  "sidx (upd_node v (\<lambda>n. n\<lparr>suffixIndex := f n\<rparr>) s) u = (if u = v then f (node_at s v) else sidx s u)"
  by (simp add: sidx_def)

lemma kid_edgeLength:
  assumes "struct_inv s g" "v \<in> live g" "kid s v k = Some c"
  shows "edgeLength (node_at s c) (leafEnd s) = dep s g c - dep s g v"
  using kid_dep(2)[OF assms] by (simp add: edgeLength_eend dep_def)

lemma frame_edgeLength:
  assumes "frame s s1 g" "c \<in> live g"
  shows "edgeLength (node_at s1 c) (leafEnd s1) = edgeLength (node_at s c) (leafEnd s)"
  using same_tree_acc(1,4)[OF frame_same[OF assms(1)] assms(2)]
  by (simp add: edgeLength_eend)

lemma frame_kid:
  assumes "frame s s1 g" "v \<in> live g"
  shows "children (node_at s1 v) = kid s v"
  using same_tree_acc(3)[OF frame_same[OF assms(1)] assms(2)] by (simp add: acc_fold)

definition index_post ::
  "suffix_tree \<Rightarrow> ghost \<Rightarrow> nat \<Rightarrow> nat \<Rightarrow> bool \<Rightarrow> suffix_tree \<Rightarrow> suffix_tree \<Rightarrow> bool" where
  "index_post s g nd i isLeaf s1 s' \<longleftrightarrow>
     frame s s' g \<and> node_count s' = node_count s1 \<and>
     (\<forall>a. a \<notin> live g \<longrightarrow> node_at s' a = node_at s1 a) \<and>
     (\<forall>v. v \<noteq> nd \<longrightarrow> \<not> sub s g nd i v \<longrightarrow> sidx s' v = sidx s1 v) \<and>
     (\<forall>v \<in> live g. sub s g nd i v \<longrightarrow> (\<forall>k. kid s v k = None)
        \<longrightarrow> sidx s' v = int (length (tree_text s)) - dep s g v) \<and>
     (isLeaf \<longrightarrow> (\<forall>k. i \<le> k \<longrightarrow> k < 27 \<longrightarrow> kid s nd (int k) = None)
        \<longrightarrow> sidx s' nd = int (length (tree_text s)) - dep s g nd)"

lemma setSuffixIndex_from_total:
  assumes S: "struct_inv s g" and I: "idx_ok (tree_text s)" and nd: "nd \<in> live g"
    and i: "i \<le> 27"
  shows "\<forall>isLeaf s1. frame s s1 g \<longrightarrow>
           (\<exists>s'. setSuffixIndex_from nd (dep s g nd) i isLeaf s1 = Some s' \<and>
                  index_post s g nd i isLeaf s1 s')"
  using S nd i
proof (induct rule: dfs_induct)
  case (base v)
  show ?case
  proof (intro allI impI)
    fix isLeaf s1 assume F: "frame s s1 g"
    have "setSuffixIndex_from v (dep s g v) 27 isLeaf s1 =
      Some (if isLeaf then upd_node v
          (\<lambda>n. n\<lparr>suffixIndex := int (length (tree_text s1)) - dep s g v\<rparr>) s1 else s1)"
      by (subst setSuffixIndex_from.simps) simp
    moreover have "index_post s g v 27 isLeaf s1
      (if isLeaf then upd_node v
          (\<lambda>n. n\<lparr>suffixIndex := int (length (tree_text s1)) - dep s g v\<rparr>) s1 else s1)"
      using F frame_upd_index[OF F] frame_fields(1)[OF F] base
      by (auto simp: index_post_def sidx_upd)
    ultimately show "\<exists>s'. setSuffixIndex_from v (dep s g v) 27 isLeaf s1 = Some s' \<and>
                  index_post s g v 27 isLeaf s1 s'" by simp
  qed
next
  case (none v i)
  show ?case
  proof (intro allI impI)
    fix isLeaf s1 assume F: "frame s s1 g"
    from none(4) F obtain s' where
      s': "setSuffixIndex_from v (dep s g v) (Suc i) isLeaf s1 = Some s'"
        "index_post s g v (Suc i) isLeaf s1 s'" by blast
    have e: "(\<forall>k. i \<le> k \<longrightarrow> k < 27 \<longrightarrow> kid s v (int k) = None)
       \<longleftrightarrow> (\<forall>k. Suc i \<le> k \<longrightarrow> k < 27 \<longrightarrow> kid s v (int k) = None)"
    proof -
      have "i \<le> k \<longleftrightarrow> k = i \<or> Suc i \<le> k" for k by auto
      with none(3) show ?thesis by auto
    qed
    have "setSuffixIndex_from v (dep s g v) i isLeaf s1 = Some s'"
      using none(2,3) s'(1) frame_kid[OF F none(1)]
      by (subst setSuffixIndex_from.simps) simp
    moreover have "index_post s g v i isLeaf s1 s'"
      using s'(2) unfolding index_post_def sub_skip[OF none(3)] e .
    ultimately show "\<exists>s'. setSuffixIndex_from v (dep s g v) i isLeaf s1 = Some s' \<and>
                  index_post s g v i isLeaf s1 s'" by blast
  qed
next
  case (some v i c)
  note st = sub_step[OF some(3,2), of g]
  show ?case
  proof (intro allI impI)
    fix isLeaf s1 assume F: "frame s s1 g"
    have h: "dep s g v + edgeLength (node_at s1 c) (leafEnd s1) = dep s g c"
      using kid_edgeLength[OF S some(1,3)] frame_edgeLength[OF F some(4)] by simp
    from some(5) F obtain s2 where
      s2: "setSuffixIndex_from c (dep s g c) 0 True s1 = Some s2"
        "index_post s g c 0 True s1 s2" by blast
    from s2(2) have F2: "frame s s2 g" by (simp add: index_post_def)
    from some(6) F2 obtain s3 where
      s3: "setSuffixIndex_from v (dep s g v) (Suc i) False s2 = Some s3"
        "index_post s g v (Suc i) False s2 s3" by blast
    have run: "setSuffixIndex_from v (dep s g v) i isLeaf s1 = Some s3"
      using some(2,3) s2(1) s3(1) frame_kid[OF F some(1)] h
      by (subst setSuffixIndex_from.simps) simp
    have cv: "c \<noteq> v" using kid_dep(1)[OF S some(1,3)] by auto
    have "index_post s g v i isLeaf s1 s3"
      unfolding index_post_def
    proof (intro conjI allI ballI impI)
      show "frame s s3 g" using s3(2) by (simp add: index_post_def)
      show "node_count s3 = node_count s1" using s2(2) s3(2) by (simp add: index_post_def)
    next
      fix a assume "a \<notin> live g"
      with s2(2) s3(2) show "node_at s3 a = node_at s1 a" by (simp add: index_post_def)
    next
      fix w assume w: "w \<noteq> v" "\<not> sub s g v i w"
      then have nb: "\<not> below s g c w" and ns: "\<not> sub s g v (Suc i) w" by (simp_all add: st)
      from nb have "w \<noteq> c" by auto
      moreover have "\<not> sub s g c 0 w" using sub_below(1)[OF S some(4)] nb by blast
      ultimately have "sidx s2 w = sidx s1 w" using s2(2) by (simp add: index_post_def)
      moreover have "sidx s3 w = sidx s2 w" using s3(2) w(1) ns by (simp add: index_post_def)
      ultimately show "sidx s3 w = sidx s1 w" by simp
    next
      fix w assume w: "w \<in> live g" "sub s g v i w" "\<forall>k. kid s w k = None"
      show "sidx s3 w = int (length (tree_text s)) - dep s g w"
      proof (cases "sub s g v (Suc i) w")
        case True
        with s3(2) w(1,3) show ?thesis by (simp add: index_post_def)
      next
        case False
        with w(2) have b: "below s g c w" by (simp add: st)
        have "w \<noteq> v" using sub_below(2)[OF S some(1) w(2)] .
        with s3(2) False have "sidx s3 w = sidx s2 w" by (simp add: index_post_def)
        moreover have "sidx s2 w = int (length (tree_text s)) - dep s g w"
        proof (cases "w = c")
          case True
          with s2(2) w(3) show ?thesis by (simp add: index_post_def)
        next
          case False
          from below_sub[OF S I some(4) w(1) b] False have "sub s g c 0 w" by auto
          with s2(2) w(1,3) show ?thesis by (simp add: index_post_def)
        qed
        ultimately show ?thesis by simp
      qed
    next
      assume "isLeaf" "\<forall>k. i \<le> k \<longrightarrow> k < 27 \<longrightarrow> kid s v (int k) = None"
      with some(2,3) show "sidx s3 v = int (length (tree_text s)) - dep s g v" by auto
    qed
    with run show "\<exists>s'. setSuffixIndex_from v (dep s g v) i isLeaf s1 = Some s' \<and>
                  index_post s g v i isLeaf s1 s'" by blast
  qed
qed

lemma setSuffixIndexByDFS_total:
  assumes S: "struct_inv s g" and I: "idx_ok (tree_text s)"
  shows "\<exists>s'. setSuffixIndexByDFS (root s) 0 s = Some s' \<and> frame s s' g \<and>
           node_count s' = node_count s \<and> (\<forall>a. a \<notin> live g \<longrightarrow> node_at s' a = node_at s a) \<and>
           (\<forall>v \<in> live g. (\<forall>k. kid s v k = None)
              \<longrightarrow> sidx s' v = int (length (tree_text s)) - dep s g v)"
proof -
  note r = struct_rootD[OF S]
  from setSuffixIndex_from_total[OF S I r(1), of 0] r(4) obtain s' where
    s': "setSuffixIndex_from (root s) 0 0 True s = Some s'"
      "index_post s g (root s) 0 True s s'" by (metis frame_refl zero_le)
  have "sidx s' v = int (length (tree_text s)) - dep s g v"
    if v: "v \<in> live g" "\<forall>k. kid s v k = None" for v
  proof (cases "v = root s")
    case True
    with s'(2) v(2) show ?thesis by (simp add: index_post_def)
  next
    case False
    have "below s g (root s) v" using r(4) dep_nonneg[OF S v(1)] by (simp add: below_def)
    from below_sub[OF S I r(1) v(1) this] False have "sub s g (root s) 0 v" by auto
    with s'(2) v show ?thesis by (simp add: index_post_def)
  qed
  with s' show ?thesis by (auto simp: setSuffixIndexByDFS_def index_post_def)
qed

lemma letter_index:
  assumes "letter c"
  shows "c \<noteq> CHR ''$''" "charToIndex c = int (of_char c) - 65" "0 \<le> charToIndex c"
    "charToIndex c < 26"
proof -
  from assms show c: "c \<noteq> CHR ''$''" by (auto simp: letter_def)
  have "(of_char c :: int) = int (of_char c)" by (simp only: of_nat_of_char)
  with c show i: "charToIndex c = int (of_char c) - 65" by (simp add: charToIndex_def)
  from assms i show "0 \<le> charToIndex c" "charToIndex c < 26" by (simp_all add: letter_def)
qed

lemma valid_text_set:
  assumes "valid_text t" "c \<in> set t"
  shows "letter c \<or> c = CHR ''$''"
proof -
  from assms(1) have "t = butlast t @ [CHR ''$'']"
    by (metis append_butlast_last_id valid_text_def)
  then have "set t = set (butlast t) \<union> {CHR ''$''}" by (metis list.set(1,2) set_append Un_insert_right sup_bot.right_neutral)
  with assms show ?thesis by (auto simp: valid_text_def list_all_iff)
qed

lemma valid_text_idx_ok:
  assumes "valid_text t"
  shows "idx_ok t"
  unfolding idx_ok_def
proof
  fix c assume "c \<in> set t"
  from valid_text_set[OF assms this] show "0 \<le> charToIndex c \<and> charToIndex c < 27"
    using letter_index(3,4)[of c] by (auto simp: charToIndex_def)
qed

lemma valid_text_inj:
  assumes "valid_text t"
  shows "inj_on charToIndex (set t)"
proof (rule inj_onI)
  fix c d assume cd: "c \<in> set t" "d \<in> set t" "charToIndex c = charToIndex d"
  have e: "charToIndex (CHR ''$'') = 26" by (simp add: charToIndex_def)
  from valid_text_set[OF assms cd(1)] valid_text_set[OF assms cd(2)] cd(3) show "c = d"
    using letter_index[of c] letter_index[of d] e by auto
qed

lemma valid_text_fresh:
  assumes "valid_text t"
  shows "fresh_at t (int (length t) - 1)"
  unfolding fresh_at_def
proof (intro allI impI)
  fix p :: int assume p: "0 \<le> p \<and> p < int (length t) - 1"
  from assms have ne: "t \<noteq> []" by (simp add: valid_text_def)
  from p have lt: "nat p < length (butlast t)" by (simp add: nat_less_iff of_nat_diff)
  then have "butlast t ! nat p \<in> set (butlast t)" by (rule nth_mem)
  with assms have "letter (butlast t ! nat p)" by (simp add: valid_text_def list_all_iff)
  moreover have "butlast t ! nat p = tch t p" using nth_butlast[OF lt] by (simp add: tch_def)
  moreover have "tch t (int (length t) - 1) = CHR ''$''"
    using assms ne by (simp add: tch_def valid_text_def last_conv_nth nat_diff_distrib')
  ultimately show "tch t p \<noteq> tch t (int (length t) - 1)"
    using letter_index(1) by metis
qed

definition tree_ok :: "suffix_tree \<Rightarrow> ghost \<Rightarrow> bool" where
  "tree_ok s g \<longleftrightarrow>
     struct_inv s g \<and> idx_ok (tree_text s) \<and> tree_text s \<noteq> [] \<and>
     fresh_at (tree_text s) (int (length (tree_text s)) - 1) \<and>
     leafEnd s = int (length (tree_text s)) - 1 \<and>
     leaf_inv s g (int (length (tree_text s))) \<and>
     (\<forall>v \<in> live g. v \<noteq> root s \<longrightarrow> nend s v = None \<longrightarrow> sidx s v = hpos g v)"

lemma build_total:
  assumes V: "valid_text t"
  shows "\<exists>s g. build t = Some (Inr s) \<and> tree_ok s g \<and> tree_text s = t"
proof -
  from buildSuffixTreeStepByStep_total[OF valid_text_inj[OF V]] valid_text_fresh[OF V]
  obtain s g where b: "buildSuffixTreeStepByStep t = Some (Inr s)"
    "post_inv s g (int (length t) - 1)" "tree_text s = t" "remainingSuffixCount s = 0"
    by blast
  from b(2) have S: "struct_inv s g" by (simp add: post_inv_def)
  have I: "idx_ok (tree_text s)" using valid_text_idx_ok[OF V] b(3) by simp
  from setSuffixIndexByDFS_total[OF S I] obtain s' where
    d: "setSuffixIndexByDFS (root s) 0 s = Some s'" "frame s s' g"
      "\<forall>v \<in> live g. (\<forall>k. kid s v k = None)
              \<longrightarrow> sidx s' v = int (length (tree_text s)) - dep s g v" by blast
  note f = frame_fields[OF d(2)]
  note T = frame_same[OF d(2)]
  have le: "leafEnd s = int (length t) - 1" and L: "leaf_inv s g (int (length t))"
    using b(2,4) by (simp_all add: post_inv_def)
  have "sidx s' v = hpos g v" if v: "v \<in> live g" "v \<noteq> root s'" "nend s' v = None" for v
  proof -
    from v have n: "nend s v = None" "v \<noteq> root s" using same_tree_acc(2)[OF T v(1)] f by simp_all
    with leaf_invD(1)[OF L v(1)] have "\<forall>k. kid s v k = None" by simp
    with d(3) v(1) have "sidx s' v = int (length (tree_text s)) - dep s g v" by simp
    with n le b(3) show ?thesis by (simp add: dep_def eend_def)
  qed
  then have "tree_ok s' g"
    using same_tree_struct[OF T S] same_tree_leaf[OF T L] I f b(3) le V valid_text_fresh[OF V]
    by (simp add: tree_ok_def valid_text_def)
  moreover have "build t = Some (Inr s')" using b(1) d(1) by (simp add: build_def)
  ultimately show ?thesis using f(1) b(3) by auto
qed

lemma tree_okD:
  assumes "tree_ok s g"
  shows "struct_inv s g" "idx_ok (tree_text s)" "tree_text s \<noteq> []"
    "fresh_at (tree_text s) (int (length (tree_text s)) - 1)"
    "leafEnd s = int (length (tree_text s)) - 1"
    "leaf_inv s g (int (length (tree_text s)))"
    "v \<in> live g \<Longrightarrow> v \<noteq> root s \<Longrightarrow> nend s v = None \<Longrightarrow> sidx s v = hpos g v"
  using assms by (simp_all add: tree_ok_def)

lemma reach_live:
  assumes S: "struct_inv s g" and "reach s (root s) v"
  shows "v \<in> live g"
  using assms(2)
proof (induction rule: reach.induct)
  case reach_self
  show ?case by (rule struct_rootD(1)[OF S])
next
  case (reach_child v k c)
  then show ?case using struct_kidD(1)[OF S, of v "int k" c] by (simp add: acc_fold)
qed

lemma anc_reach:
  assumes S: "struct_inv s g" and I: "idx_ok (tree_text s)" and "anc s g u v"
  shows "reach s u v"
  using assms(3)
proof (induction rule: anc.induct)
  case (anc_refl w)
  show ?case by (rule reach_self)
next
  case (anc_step u w)
  note e = struct_edgeD(1,2)[OF S anc_step(2,3)]
  from kid_key_range[OF S I e] obtain i where i: "i < 27" "first_key s w = int i" by auto
  with e(2) have "children (node_at s (par g w)) (int i) = Some w" by (simp add: acc_fold)
  with anc_step(4) i(1) show ?case by (intro reach_child[of s u "par g w" i w]) simp_all
qed

lemma reach_iff_live:
  assumes "struct_inv s g" "idx_ok (tree_text s)"
  shows "reach s (root s) v \<longleftrightarrow> v \<in> live g"
  using reach_live[OF assms(1)] anc_reach[OF assms anc_root[OF assms(1)]] by blast

lemma childCount_card:
  "childCount s v = card {i. i < 27 \<and> kid s v (int i) \<noteq> None}"
proof -
  have "childCount s v = card (set (filter (\<lambda>i. kid s v (int i) \<noteq> None) [0 ..< 27]))"
    unfolding childCount_def acc_fold by (rule distinct_card[symmetric]) simp
  also have "set (filter (\<lambda>i. kid s v (int i) \<noteq> None) [0 ..< 27])
      = {i. i < 27 \<and> kid s v (int i) \<noteq> None}" by auto
  finally show ?thesis .
qed

lemma childCount_zero:
  assumes S: "struct_inv s g" and I: "idx_ok (tree_text s)" and v: "v \<in> live g"
  shows "childCount s v = 0 \<longleftrightarrow> (\<forall>k. kid s v k = None)"
proof
  assume "childCount s v = 0"
  then have z: "\<forall>i < 27. kid s v (int i) = None" by (auto simp: childCount_card)
  show "\<forall>k. kid s v k = None"
  proof (rule ccontr)
    assume "\<not> (\<forall>k. kid s v k = None)"
    then obtain k c where "kid s v k = Some c" by auto
    from kid_key_range[OF S I v this] this z show False by auto
  qed
next
  assume "\<forall>k. kid s v k = None"
  then show "childCount s v = 0" by (simp add: childCount_card)
qed

lemma childCount_two:
  assumes S: "struct_inv s g" and I: "idx_ok (tree_text s)" and v: "v \<in> live g"
    and k: "k1 \<noteq> k2" "kid s v k1 \<noteq> None" "kid s v k2 \<noteq> None"
  shows "2 \<le> childCount s v"
proof -
  from k(2) kid_key_range[OF S I v] obtain i1 where i1: "i1 < 27" "k1 = int i1" by auto
  from k(3) kid_key_range[OF S I v] obtain i2 where i2: "i2 < 27" "k2 = int i2" by auto
  have "{i1, i2} \<subseteq> {i. i < 27 \<and> kid s v (int i) \<noteq> None}" using i1 i2 k by auto
  then have "card {i1, i2} \<le> childCount s v"
    unfolding childCount_card by (intro card_mono) simp_all
  with k(1) i1(2) i2(2) show ?thesis by auto
qed

lemma root_not_leaf:
  assumes T: "tree_ok s g"
  shows "\<exists>k. kid s (root s) k \<noteq> None"
proof -
  note t = tree_okD[OF T]
  from t(3) have "0 < int (length (tree_text s))" by simp
  from leaf_invD(3)[OF t(6) _ this] obtain v where v: "v \<in> live g" "v \<noteq> root s" by auto
  from anc_child[OF t(1) anc_root[OF t(1) v(1)]] v(2) show ?thesis by force
qed

definition leaves :: "suffix_tree \<Rightarrow> nat set" where
  "leaves s = {v. reach s (root s) v \<and> childCount s v = 0}"

lemma leaves_eq:
  assumes T: "tree_ok s g"
  shows "leaves s = {v \<in> live g. v \<noteq> root s \<and> nend s v = None}"
proof -
  note t = tree_okD[OF T]
  have "childCount s v = 0 \<longleftrightarrow> v \<noteq> root s \<and> nend s v = None" if v: "v \<in> live g" for v
  proof (cases "v = root s")
    case True
    with root_not_leaf[OF T] childCount_zero[OF t(1,2) v] show ?thesis by simp
  next
    case False
    with leaf_invD(1)[OF t(6) v] childCount_zero[OF t(1,2) v] show ?thesis by simp
  qed
  then show ?thesis
    unfolding leaves_def using reach_iff_live[OF t(1,2)] by auto
qed

lemma leaf_dep:
  assumes T: "tree_ok s g" and v: "v \<in> leaves s"
  shows "v \<in> live g" "v \<noteq> root s" "nend s v = None" "sidx s v = hpos g v"
    "dep s g v = int (length (tree_text s)) - hpos g v" "0 \<le> hpos g v"
    "hpos g v < int (length (tree_text s))"
proof -
  note t = tree_okD[OF T]
  from v show a: "v \<in> live g" "v \<noteq> root s" "nend s v = None"
    by (simp_all add: leaves_eq[OF T])
  from t(7)[OF a] show "sidx s v = hpos g v" .
  from a(3) t(5) show "dep s g v = int (length (tree_text s)) - hpos g v"
    by (simp add: dep_def eend_def)
  from label_in_text(1)[OF t(1) a(1)] show "0 \<le> hpos g v" .
  from leaf_invD(2)[OF t(6) a] show "hpos g v < int (length (tree_text s))" .
qed

lemma leaf_unique:
  assumes T: "tree_ok s g" and "u \<in> leaves s" "v \<in> leaves s" "hpos g u = hpos g v"
  shows "u = v"
proof -
  note u = leaf_dep[OF T assms(2)] and v = leaf_dep[OF T assms(3)]
  show ?thesis
    using assms(4) u(5) v(5) by (intro label_inj[OF tree_okD(1)[OF T] u(1) v(1)]) simp_all
qed

lemma leaf_at:
  assumes T: "tree_ok s g" and "0 \<le> a" "a < int (length (tree_text s))"
  shows "\<exists>v \<in> leaves s. hpos g v = a"
  using leaf_invD(3)[OF tree_okD(6)[OF T] assms(2,3)] by (auto simp: leaves_eq[OF T])

lemma leaves_bij:
  assumes T: "tree_ok s g"
  shows "bij_betw (sidx s) (leaves s) {0 ..< int (length (tree_text s))}"
  unfolding bij_betw_def
proof
  show "inj_on (sidx s) (leaves s)"
    using leaf_unique[OF T] leaf_dep(4)[OF T] by (intro inj_onI) simp
  show "sidx s ` leaves s = {0 ..< int (length (tree_text s))}"
  proof (intro set_eqI iffI)
    fix a assume "a \<in> sidx s ` leaves s"
    then show "a \<in> {0 ..< int (length (tree_text s))}"
      using leaf_dep(4,6,7)[OF T] by auto
  next
    fix a assume "a \<in> {0 ..< int (length (tree_text s))}"
    with leaf_at[OF T, of a] obtain v where "v \<in> leaves s" "hpos g v = a" by auto
    with leaf_dep(4)[OF T this(1)] show "a \<in> sidx s ` leaves s" by force
  qed
qed

lemma internal_two:
  assumes T: "tree_ok s g" and v: "reach s (root s) v" "v \<noteq> root s" "v \<notin> leaves s"
  shows "2 \<le> childCount s v"
proof -
  note t = tree_okD[OF T]
  from v(1) have l: "v \<in> live g" by (simp add: reach_iff_live[OF t(1,2)])
  with v(2,3) obtain e where "nend s v = Some e" by (auto simp: leaves_eq[OF T])
  from leaf_invD(5)[OF t(6) l v(2) this] childCount_two[OF t(1,2) l] show ?thesis by blast
qed

section \<open>The copy made by cloneTreeWithSuffixLinks\<close>

lemma set_update_subset: "set (AList.update k v al) \<subseteq> insert (k, v) (set al)"
  by (induction al) auto

lemma distinct_snd_update:
  "distinct (map snd al) \<Longrightarrow> v \<notin> snd ` set al \<Longrightarrow> distinct (map snd (AList.update k v al))"
proof (induction al)
  case Nil
  then show ?case by simp
next
  case (Cons p ps)
  have "snd ` set (AList.update k v ps) \<subseteq> insert v (snd ` set ps)"
    using set_update_subset[of k v ps] by force
  with Cons show ?case by auto
qed

definition entries_ok :: "ghost \<Rightarrow> nat \<Rightarrow> nat \<Rightarrow> (nat \<times> nat) list \<Rightarrow> bool" where
  "entries_ok g n0 n m \<longleftrightarrow>
     distinct (map fst m) \<and> distinct (map snd m) \<and>
     (\<forall>(v, c) \<in> set m. v \<in> live g \<and> n0 \<le> c \<and> c < n)"

lemma entries_ok_update:
  assumes "entries_ok g n0 n m" "v \<in> live g" "n0 \<le> n"
  shows "entries_ok g n0 (Suc n) (AList.update v n m)"
proof -
  from assms(1) have "n \<notin> snd ` set m" by (force simp: entries_ok_def)
  with assms(1) have "distinct (map snd (AList.update v n m))"
    by (intro distinct_snd_update) (simp_all add: entries_ok_def)
  moreover have "\<forall>(u, c) \<in> set (AList.update v n m). u \<in> live g \<and> n0 \<le> c \<and> c < Suc n"
    using set_update_subset[of v n m] assms by (fastforce simp: entries_ok_def)
  ultimately show ?thesis using assms(1) by (simp add: entries_ok_def distinct_update)
qed

lemma entries_ok_mono: "entries_ok g n0 n m \<Longrightarrow> n \<le> n' \<Longrightarrow> entries_ok g n0 n' m"
  by (fastforce simp: entries_ok_def)

lemma entries_okD:
  assumes "entries_ok g n0 n m" "map_of m v = Some c"
  shows "v \<in> live g" "n0 \<le> c" "c < n"
  using assms map_of_SomeD[OF assms(2)] by (auto simp: entries_ok_def)

lemma entries_ok_inj:
  assumes "entries_ok g n0 n m" "map_of m u = Some c" "map_of m v = Some c"
  shows "u = v"
proof -
  from assms have "(u, c) \<in> set m" "(v, c) \<in> set m" by (auto dest: map_of_SomeD)
  moreover from assms(1) have "inj_on snd (set m)"
    by (simp add: entries_ok_def distinct_map)
  ultimately have "(u, c) = (v, c)" by (intro inj_onD[of snd "set m"]) simp_all
  then show ?thesis by simp
qed

text \<open>The store during the cloning: the old addresses are not written.\<close>

definition ext :: "suffix_tree \<Rightarrow> suffix_tree \<Rightarrow> bool" where
  "ext s0 s \<longleftrightarrow>
     node_count s0 \<le> node_count s \<and> (\<forall>a < node_count s0. node_at s a = node_at s0 a) \<and>
     tree_text s = tree_text s0 \<and> root s = root s0 \<and> leafEnd s = leafEnd s0 \<and>
     activeNode s = activeNode s0 \<and> activeLength s = activeLength s0 \<and>
     activeEdge s = activeEdge s0 \<and> remainingSuffixCount s = remainingSuffixCount s0 \<and>
     lastCreatedNode s = lastCreatedNode s0 \<and> steps s = steps s0"

lemma ext_refl [simp]: "ext s s"
  by (simp add: ext_def)

lemma ext_alloc: "ext s0 s \<Longrightarrow> ext s0 (alloc n s)"
  by (simp add: ext_def)

lemma ext_set_child: "ext s0 s \<Longrightarrow> node_count s0 \<le> u \<Longrightarrow> ext s0 (set_child u k c s)"
  by (simp add: ext_def)

lemma ext_upd_node: "ext s0 s \<Longrightarrow> node_count s0 \<le> u \<Longrightarrow> ext s0 (upd_node u f s)"
  by (simp add: ext_def)

lemma ext_node:
  assumes "ext s0 s" "struct_inv s0 g" "v \<in> live g"
  shows "node_at s v = node_at s0 v"
  using assms struct_fresh[OF assms(2,3)] by (simp add: ext_def)

lemma ext_frame:
  assumes "ext s0 s" "struct_inv s0 g"
  shows "frame s0 s g"
  using assms ext_node[OF assms]
  by (simp add: frame_def same_tree_def acc_defs ext_def fun_eq_iff)

definition kids_from :: "suffix_tree \<Rightarrow> nat \<Rightarrow> nat \<Rightarrow> int \<Rightarrow> nat option" where
  "kids_from s0 v i k = (if \<exists>j. i \<le> j \<and> j < 27 \<and> k = int j then kid s0 v k else None)"

lemma kids_from_end [simp]: "kids_from s0 v 27 k = None"
  by (auto simp: kids_from_def)

lemma kids_from_skip: "kid s0 v (int i) = None \<Longrightarrow> kids_from s0 v i = kids_from s0 v (Suc i)"
proof
  fix k assume n: "kid s0 v (int i) = None"
  have "(\<exists>j. i \<le> j \<and> j < 27 \<and> k = int j)
      \<longleftrightarrow> (k = int i \<and> i < 27) \<or> (\<exists>j. Suc i \<le> j \<and> j < 27 \<and> k = int j)"
    by (metis Suc_leI le_neq_implies_less Suc_leD order_refl)
  with n show "kids_from s0 v i k = kids_from s0 v (Suc i) k" by (auto simp: kids_from_def)
qed

lemma kids_from_step:
  assumes "kid s0 v (int i) = Some c" "i < 27"
  shows "kids_from s0 v i k = (if k = int i then Some c else kids_from s0 v (Suc i) k)"
proof -
  have "(\<exists>j. i \<le> j \<and> j < 27 \<and> k = int j)
      \<longleftrightarrow> (k = int i \<and> i < 27) \<or> (\<exists>j. Suc i \<le> j \<and> j < 27 \<and> k = int j)"
    by (metis Suc_leI le_neq_implies_less Suc_leD order_refl)
  with assms show ?thesis by (auto simp: kids_from_def)
qed

lemma kids_from_SomeD:
  assumes "kids_from s0 v i k = Some c"
  shows "kid s0 v k = Some c" "\<exists>j. i \<le> j \<and> j < 27 \<and> k = int j"
  using assms by (auto simp: kids_from_def split: if_splits)

definition is_copy :: "suffix_tree \<Rightarrow> (nat \<Rightarrow> nat option) \<Rightarrow> nat \<Rightarrow> node \<Rightarrow> bool" where
  "is_copy s0 mp v n \<longleftrightarrow>
     start n = nstart s0 v \<and> endv n = nend s0 v \<and> suffixLink n = None \<and>
     suffixIndex n = sidx s0 v \<and>
     (\<forall>k. children n k = Option.bind (kids_from s0 v 0 k) mp)"

lemma is_copy_cong:
  assumes "is_copy s0 mp v n" "\<And>k c. kid s0 v k = Some c \<Longrightarrow> mp' c = mp c"
  shows "is_copy s0 mp' v n"
proof -
  have "Option.bind (kids_from s0 v 0 k) mp' = Option.bind (kids_from s0 v 0 k) mp" for k
    using assms(2) kids_from_SomeD(1)[of s0 v 0 k] by (cases "kids_from s0 v 0 k") auto
  with assms(1) show ?thesis by (simp add: is_copy_def)
qed

definition clone_post ::
  "suffix_tree \<Rightarrow> ghost \<Rightarrow> nat \<Rightarrow> nat \<Rightarrow> nat \<Rightarrow> suffix_tree \<Rightarrow> (nat \<times> nat) list
     \<Rightarrow> suffix_tree \<Rightarrow> (nat \<times> nat) list \<Rightarrow> bool" where
  "clone_post s0 g nd newNode i s m s' m' \<longleftrightarrow>
     ext s0 s' \<and> node_count s \<le> node_count s' \<and>
     entries_ok g (node_count s0) (node_count s') m' \<and>
     (\<forall>a < node_count s. a \<noteq> newNode \<longrightarrow> node_at s' a = node_at s a) \<and>
     start (node_at s' newNode) = start (node_at s newNode) \<and>
     endv (node_at s' newNode) = endv (node_at s newNode) \<and>
     suffixLink (node_at s' newNode) = suffixLink (node_at s newNode) \<and>
     suffixIndex (node_at s' newNode) = suffixIndex (node_at s newNode) \<and>
     (\<forall>k. children (node_at s' newNode) k =
        (case kids_from s0 nd i k of
           None \<Rightarrow> children (node_at s newNode) k | Some c \<Rightarrow> map_of m' c)) \<and>
     (\<forall>v. \<not> (v \<in> live g \<and> sub s0 g nd i v) \<longrightarrow> map_of m' v = map_of m v) \<and>
     (\<forall>v \<in> live g. sub s0 g nd i v \<longrightarrow>
        (\<exists>c. map_of m' v = Some c \<and> node_count s \<le> c \<and> is_copy s0 (map_of m') v (node_at s' c)))"

lemma clone_postD:
  assumes "clone_post s0 g nd newNode i s m s' m'"
  shows "ext s0 s'" "node_count s \<le> node_count s'"
    "entries_ok g (node_count s0) (node_count s') m'"
    "\<And>a. a < node_count s \<Longrightarrow> a \<noteq> newNode \<Longrightarrow> node_at s' a = node_at s a"
    "start (node_at s' newNode) = start (node_at s newNode)"
    "endv (node_at s' newNode) = endv (node_at s newNode)"
    "suffixLink (node_at s' newNode) = suffixLink (node_at s newNode)"
    "suffixIndex (node_at s' newNode) = suffixIndex (node_at s newNode)"
    "\<And>k. children (node_at s' newNode) k =
        (case kids_from s0 nd i k of
           None \<Rightarrow> children (node_at s newNode) k | Some c \<Rightarrow> map_of m' c)"
    "\<And>v. \<not> (v \<in> live g \<and> sub s0 g nd i v) \<Longrightarrow> map_of m' v = map_of m v"
    "\<And>v. v \<in> live g \<Longrightarrow> sub s0 g nd i v \<Longrightarrow>
        \<exists>c. map_of m' v = Some c \<and> node_count s \<le> c \<and> is_copy s0 (map_of m') v (node_at s' c)"
  using assms unfolding clone_post_def by blast+

lemma sub_step_disjoint:
  assumes S: "struct_inv s g" and v: "v \<in> live g" and k: "kid s v (int i) = Some c"
    and b: "below s g c w"
  shows "\<not> sub s g v (Suc i) w"
proof
  assume "sub s g v (Suc i) w"
  then obtain j c' where j: "Suc i \<le> j" "kid s v (int j) = Some c'" "below s g c' w"
    by (auto simp: sub_def)
  from sub_disjoint[OF S v k j(2) b j(3)] j(1) show False by simp
qed

lemma below_kid_sub:
  assumes S: "struct_inv s g" and I: "idx_ok (tree_text s)" and c: "c \<in> live g"
    and w: "w \<in> live g" and b: "below s g c w" and k: "kid s w k = Some x"
  shows "x \<in> live g" "sub s g c 0 x"
proof -
  show x: "x \<in> live g" by (rule struct_kidD(1)[OF S w k])
  have bx: "below s g c x" by (rule below_trans[OF b below_kid[OF S w k]])
  have "dep s g c < dep s g x" using b kid_dep(1)[OF S w k] by (simp add: below_def)
  then have "c \<noteq> x" by auto
  from below_sub[OF S I c x bx this] show "sub s g c 0 x" .
qed

lemma kids_from_self [simp]: "kids_from s0 v (Suc i) (int i) = None"
  by (auto simp: kids_from_def)

lemma node_at_clone_start_end:
  "start (clone_start_end n) = start n" "endv (clone_start_end n) = endv n"
  "suffixLink (clone_start_end n) = None" "suffixIndex (clone_start_end n) = suffixIndex n"
  "children (clone_start_end n) k = None"
  by (simp_all add: clone_start_end_def)

lemma cloneNodeHelper_from_total:
  assumes S: "struct_inv s0 g" and I: "idx_ok (tree_text s0)" and nd: "nd \<in> live g"
    and i: "i \<le> 27"
  shows "\<forall>newNode s m. ext s0 s \<longrightarrow> entries_ok g (node_count s0) (node_count s) m \<longrightarrow>
           node_count s0 \<le> newNode \<longrightarrow> newNode < node_count s \<longrightarrow>
           (\<exists>s' m'. cloneNodeHelper_from nd newNode i s m = Some (s', m') \<and>
                     clone_post s0 g nd newNode i s m s' m')"
  using S nd i
proof (induct rule: dfs_induct)
  case (base v)
  show ?case
  proof (intro allI impI)
    fix newNode s m
    assume "ext s0 s" "entries_ok g (node_count s0) (node_count s) m"
    then have "clone_post s0 g v newNode 27 s m s m" by (simp add: clone_post_def)
    moreover have "cloneNodeHelper_from v newNode 27 s m = Some (s, m)"
      by (subst cloneNodeHelper_from.simps) simp
    ultimately show "\<exists>s' m'. cloneNodeHelper_from v newNode 27 s m = Some (s', m') \<and>
                     clone_post s0 g v newNode 27 s m s' m'" by blast
  qed
next
  case (none v i)
  show ?case
  proof (intro allI impI)
    fix newNode s m
    assume E: "ext s0 s" and M: "entries_ok g (node_count s0) (node_count s) m"
      and n: "node_count s0 \<le> newNode" "newNode < node_count s"
    from none(4) E M n obtain s' m' where
      r: "cloneNodeHelper_from v newNode (Suc i) s m = Some (s', m')"
        "clone_post s0 g v newNode (Suc i) s m s' m'" by blast
    have "children (node_at s v) (int i) = None"
      using ext_node[OF E S none(1)] none(3) by (simp add: acc_fold)
    with none(2) r(1) have "cloneNodeHelper_from v newNode i s m = Some (s', m')"
      by (subst cloneNodeHelper_from.simps) simp
    moreover have "clone_post s0 g v newNode i s m s' m'"
      using r(2) unfolding clone_post_def kids_from_skip[OF none(3)] sub_skip[OF none(3)] .
    ultimately show "\<exists>s' m'. cloneNodeHelper_from v newNode i s m = Some (s', m') \<and>
                     clone_post s0 g v newNode i s m s' m'" by blast
  qed
next
  case (some v i c)
  note st = sub_step[OF some(3,2), of g]
  note dj = sub_step_disjoint[OF S some(1,3)]
  show ?case
  proof (intro allI impI)
    fix newNode s m
    assume E: "ext s0 s" and M: "entries_ok g (node_count s0) (node_count s) m"
      and n0: "node_count s0 \<le> newNode" and nn: "newNode < node_count s"
    define cn where "cn = node_count s"
    define sa where "sa = alloc (clone_start_end (node_at s c)) s"
    define ma where "ma = AList.update c cn m"
    have kc: "children (node_at s v) (int i) = Some c"
      using ext_node[OF E S some(1)] some(3) by (simp add: acc_fold)
    have c0: "node_count s0 \<le> cn" using E by (simp add: ext_def cn_def)
    have nsa: "node_count sa = Suc cn" by (simp add: sa_def cn_def)
    have Ea: "ext s0 sa" unfolding sa_def by (rule ext_alloc[OF E])
    have Ma: "entries_ok g (node_count s0) (node_count sa) ma"
      unfolding nsa ma_def using entries_ok_update[OF M some(4)] c0 by (simp add: cn_def)
    have nca: "node_at sa cn = clone_start_end (node_at s0 c)"
      using ext_node[OF E S some(4)] by (simp add: sa_def cn_def)
    have osa: "node_at sa a = node_at s a" if "a < cn" for a
      using that by (simp add: sa_def cn_def)
    from some(5) Ea Ma c0 nsa obtain s2 m2 where
      r2: "cloneNodeHelper_from c cn 0 sa ma = Some (s2, m2)"
      and P2: "clone_post s0 g c cn 0 sa ma s2 m2" by (metis lessI)
    note p2 = clone_postD[OF P2]
    define sb where "sb = set_child newNode (int i) cn s2"
    have nsb: "node_count sb = node_count s2" by (simp add: sb_def)
    have Eb: "ext s0 sb" unfolding sb_def by (rule ext_set_child[OF p2(1) n0])
    have Mb: "entries_ok g (node_count s0) (node_count sb) m2" using p2(3) by (simp add: nsb)
    have le2: "Suc cn \<le> node_count s2" using p2(2) by (simp add: nsa)
    have nnb: "newNode < node_count sb" using nn le2 by (simp add: nsb cn_def)
    from some(6) Eb Mb n0 nnb obtain s3 m3 where
      r3: "cloneNodeHelper_from v newNode (Suc i) sb m2 = Some (s3, m3)"
      and P3: "clone_post s0 g v newNode (Suc i) sb m2 s3 m3" by blast
    note p3 = clone_postD[OF P3]
    have run: "cloneNodeHelper_from v newNode i s m = Some (s3, m3)"
      using some(2) kc r2 r3
      by (subst cloneNodeHelper_from.simps) (simp add: cn_def sa_def ma_def sb_def)
    have ncn: "newNode \<noteq> cn" "newNode < cn" using nn by (simp_all add: cn_def)
    have osb: "node_at sb a = node_at s2 a" if "a \<noteq> newNode" for a
      using that by (simp add: sb_def)
    have stable: "map_of m3 w = map_of m2 w" if "below s0 g c w" for w
      using p3(10)[of w] dj[OF that] by simp
    have "\<not> sub s0 g c 0 c" using sub_below(2)[OF S some(4), of 0 c] by auto
    then have "map_of m2 c = map_of ma c" using p2(10)[of c] by simp
    then have mc2: "map_of m2 c = Some cn" by (simp add: ma_def update_conv')
    then have mc3: "map_of m3 c = Some cn" using stable[of c] by simp
    have keep: "node_at s3 a = node_at s2 a" if "a < node_count s2" "a \<noteq> newNode" for a
      using p3(4)[of a] that osb[of a] by (simp add: nsb)
    have cc2: "is_copy s0 (map_of m2) c (node_at s2 cn)"
      unfolding is_copy_def
      using p2(5,6,7,8,9) by (simp add: nca node_at_clone_start_end acc_fold sidx_def
          split: option.splits)
    have cks: "map_of m3 x = map_of m2 x" if "below s0 g c w" "w \<in> live g" "kid s0 w k = Some x"
      for w k x
      using stable[OF below_trans[OF that(1) below_kid[OF S that(2,3)]]] .
    have cc3: "is_copy s0 (map_of m3) c (node_at s3 cn)"
    proof -
      have "node_at s3 cn = node_at s2 cn" using le2 ncn by (intro keep) simp_all
      with cc2 cks[OF below_refl some(4)] show ?thesis by (auto intro: is_copy_cong)
    qed
    have "clone_post s0 g v newNode i s m s3 m3"
      unfolding clone_post_def
    proof (intro conjI allI ballI impI)
      show "ext s0 s3" by (rule p3(1))
      show "node_count s \<le> node_count s3" using p3(2) le2 by (simp add: nsb cn_def)
      show "entries_ok g (node_count s0) (node_count s3) m3" by (rule p3(3))
    next
      fix a assume a: "a < node_count s" "a \<noteq> newNode"
      then have "a < cn" by (simp add: cn_def)
      with a le2 have "node_at s3 a = node_at s2 a" by (intro keep) simp_all
      also have "\<dots> = node_at sa a" using \<open>a < cn\<close> by (intro p2(4)) (simp_all add: nsa)
      also have "\<dots> = node_at s a" by (rule osa[OF \<open>a < cn\<close>])
      finally show "node_at s3 a = node_at s a" .
    next
      have b: "node_at sb newNode
          = (node_at s newNode)\<lparr>children := (children (node_at s newNode))(int i \<mapsto> cn)\<rparr>"
        using p2(4)[of newNode] ncn osa[of newNode] by (simp add: sb_def nsa)
      show "start (node_at s3 newNode) = start (node_at s newNode)"
        "endv (node_at s3 newNode) = endv (node_at s newNode)"
        "suffixLink (node_at s3 newNode) = suffixLink (node_at s newNode)"
        "suffixIndex (node_at s3 newNode) = suffixIndex (node_at s newNode)"
        using p3(5,6,7,8) by (simp_all add: b)
      fix k
      show "children (node_at s3 newNode) k =
        (case kids_from s0 v i k of
           None \<Rightarrow> children (node_at s newNode) k | Some c \<Rightarrow> map_of m3 c)"
        using p3(9)[of k] mc3
        by (simp add: b kids_from_step[OF some(3,2)] split: option.splits)
    next
      fix w assume w: "\<not> (w \<in> live g \<and> sub s0 g v i w)"
      have 1: "\<not> (w \<in> live g \<and> sub s0 g v (Suc i) w)" using w by (auto simp: st)
      have 2: "\<not> (w \<in> live g \<and> sub s0 g c 0 w)"
        using w sub_below(1)[OF S some(4), of 0 w] by (auto simp: st)
      have 3: "w \<noteq> c" using w some(4) by (auto simp: st)
      from p3(10)[OF 1] p2(10)[OF 2] 3 show "map_of m3 w = map_of m w"
        by (simp add: ma_def update_conv')
    next
      fix w assume w: "w \<in> live g" "sub s0 g v i w"
      show "\<exists>c. map_of m3 w = Some c \<and> node_count s \<le> c \<and>
                is_copy s0 (map_of m3) w (node_at s3 c)"
      proof (cases "sub s0 g v (Suc i) w")
        case True
        from p3(11)[OF w(1) True] le2 show ?thesis by (auto simp: nsb cn_def)
      next
        case False
        with w(2) have b: "below s0 g c w" by (simp add: st)
        show ?thesis
        proof (cases "w = c")
          case True
          with mc3 cc3 show ?thesis by (auto simp: cn_def)
        next
          case False
          from below_sub[OF S I some(4) w(1) b] False have "sub s0 g c 0 w" by auto
          from p2(11)[OF w(1) this] obtain c' where
            c': "map_of m2 w = Some c'" "node_count sa \<le> c'"
              "is_copy s0 (map_of m2) w (node_at s2 c')" by blast
          from entries_okD(3)[OF p2(3) c'(1)] have lt: "c' < node_count s2" .
          have ne: "c' \<noteq> newNode" using c'(2) ncn by (simp add: nsa)
          have "node_at s3 c' = node_at s2 c'" by (rule keep[OF lt ne])
          with c'(3) cks[OF b w(1)] have "is_copy s0 (map_of m3) w (node_at s3 c')"
            by (auto intro: is_copy_cong)
          with stable[OF b] c'(1,2) show ?thesis by (auto simp: nsa cn_def)
        qed
      qed
    qed
    with run show "\<exists>s' m'. cloneNodeHelper_from v newNode i s m = Some (s', m') \<and>
                     clone_post s0 g v newNode i s m s' m'" by blast
  qed
qed

lemma relink_spec:
  assumes S: "struct_inv s0 g"
  shows "ext s0 s \<Longrightarrow> \<forall>(v, c) \<in> set es. v \<in> live g \<and> node_count s0 \<le> c
    \<Longrightarrow> distinct (map snd es)
    \<Longrightarrow> ext s0 (relink m es s) \<and> node_count (relink m es s) = node_count s \<and>
        (\<forall>a. a \<notin> snd ` set es \<longrightarrow> node_at (relink m es s) a = node_at s a) \<and>
        (\<forall>(v, c) \<in> set es. node_at (relink m es s) c =
           (case slink s0 v of None \<Rightarrow> node_at s c
            | Some l \<Rightarrow> (node_at s c)\<lparr>suffixLink := map_of m l\<rparr>))"
proof (induction es arbitrary: s)
  case Nil
  then show ?case by simp
next
  case (Cons e es)
  obtain v c where e: "e = (v, c)" by (cases e)
  define s1 where "s1 = (case suffixLink (node_at s v) of None \<Rightarrow> s
     | Some l \<Rightarrow> upd_node c (\<lambda>n. n\<lparr>suffixLink := map_of m l\<rparr>) s)"
  from Cons.prems(2) have v: "v \<in> live g" and c: "node_count s0 \<le> c" by (simp_all add: e)
  have sl: "suffixLink (node_at s v) = slink s0 v"
    using ext_node[OF Cons.prems(1) S v] by (simp add: acc_fold)
  have E1: "ext s0 s1"
    unfolding s1_def using Cons.prems(1) c by (auto split: option.splits intro: ext_upd_node)
  have n1: "node_count s1 = node_count s" by (simp add: s1_def split: option.splits)
  have o1: "node_at s1 a = node_at s a" if "a \<noteq> c" for a
    using that by (simp add: s1_def split: option.splits)
  have c1: "node_at s1 c = (case slink s0 v of None \<Rightarrow> node_at s c
            | Some l \<Rightarrow> (node_at s c)\<lparr>suffixLink := map_of m l\<rparr>)"
    by (simp add: s1_def sl split: option.splits)
  have r: "relink m (e # es) s = relink m es s1" by (simp add: e s1_def)
  from Cons.prems(2,3) have p: "\<forall>(v, c) \<in> set es. v \<in> live g \<and> node_count s0 \<le> c"
    "distinct (map snd es)" and cn: "c \<notin> snd ` set es" by (simp_all add: e)
  note ih = Cons.IH[OF E1 p]
  show ?case
    unfolding r
  proof (intro conjI allI impI)
    show "ext s0 (relink m es s1)" using ih by simp
    show "node_count (relink m es s1) = node_count s" using ih n1 by simp
  next
    fix a assume "a \<notin> snd ` set (e # es)"
    then have "a \<notin> snd ` set es" "a \<noteq> c" by (simp_all add: e)
    with ih o1 show "node_at (relink m es s1) a = node_at s a" by simp
  next
    show "\<forall>(v, c) \<in> set (e # es). node_at (relink m es s1) c =
           (case slink s0 v of None \<Rightarrow> node_at s c
            | Some l \<Rightarrow> (node_at s c)\<lparr>suffixLink := map_of m l\<rparr>)"
    proof (intro ballI, clarify)
      fix v' c' assume m: "(v', c') \<in> set (e # es)"
      show "node_at (relink m es s1) c' =
           (case slink s0 v' of None \<Rightarrow> node_at s c'
            | Some l \<Rightarrow> (node_at s c')\<lparr>suffixLink := map_of m l\<rparr>)"
      proof (cases "(v', c') = e")
        case True
        then have vc: "v' = v" "c' = c" by (simp_all add: e)
        from ih cn have "node_at (relink m es s1) c = node_at s1 c" by simp
        with c1 show ?thesis unfolding vc by simp
      next
        case False
        with m have i: "(v', c') \<in> set es" by simp
        then have "c' \<in> snd ` set es" by force
        with cn have "c' \<noteq> c" by auto
        with ih i o1[of c'] show ?thesis by (auto split: option.splits)
      qed
    qed
  qed
qed

text \<open>The copy of the tree: every node of the tree has its copy among the new nodes.\<close>

lemma cloneTree_total:
  assumes S: "struct_inv s0 g" and I: "idx_ok (tree_text s0)" and K: "links_live s0 g"
  shows "\<exists>s' mp. cloneTreeWithSuffixLinks (root s0) s0 = Some (node_count s0, s') \<and>
           ext s0 s' \<and> mp (root s0) = node_count s0 \<and> inj_on mp (live g) \<and>
           (\<forall>v \<in> live g. node_count s0 \<le> mp v \<and> mp v < node_count s' \<and>
              start (node_at s' (mp v)) = nstart s0 v \<and>
              endv (node_at s' (mp v)) = nend s0 v \<and>
              suffixIndex (node_at s' (mp v)) = sidx s0 v \<and>
              (\<forall>k. children (node_at s' (mp v)) k = map_option mp (kids_from s0 v 0 k)) \<and>
              suffixLink (node_at s' (mp v)) = map_option mp (slink s0 v))"
proof -
  define n0 where "n0 = node_count s0"
  define sa where "sa = alloc (clone_start_end (node_at s0 (root s0))) s0"
  define ma where "ma = AList.update (root s0) n0 []"
  note r = struct_rootD[OF S]
  have Ea: "ext s0 sa" unfolding sa_def by (rule ext_alloc[OF ext_refl])
  have "entries_ok g n0 n0 []" by (simp add: entries_ok_def)
  from entries_ok_update[OF this r(1)]
  have Ma: "entries_ok g (node_count s0) (node_count sa) ma"
    by (simp add: ma_def sa_def n0_def)
  have nsa: "node_count sa = Suc n0" by (simp add: sa_def n0_def)
  from cloneNodeHelper_from_total[OF S I r(1), of 0] Ea Ma nsa obtain s1 m1 where
    run: "cloneNodeHelper_from (root s0) n0 0 sa ma = Some (s1, m1)"
    and P: "clone_post s0 g (root s0) n0 0 sa ma s1 m1"
    by (metis n0_def le_refl lessI zero_le)
  note p = clone_postD[OF P]
  define s2 where "s2 = relink m1 m1 s1"
  define mp where "mp = (\<lambda>v. the (map_of m1 v))"
  have M1: "entries_ok g n0 (node_count s1) m1" using p(3) by (simp add: n0_def)
  have ent: "\<forall>(v, c) \<in> set m1. v \<in> live g \<and> node_count s0 \<le> c" "distinct (map snd m1)"
    "distinct (map fst m1)"
    using M1 by (auto simp: entries_ok_def n0_def)
  note R = relink_spec[OF S p(1) ent(1,2), of m1, folded s2_def]
  have "\<not> sub s0 g (root s0) 0 (root s0)" using sub_below(2)[OF S r(1), of 0 "root s0"] by auto
  then have "map_of m1 (root s0) = map_of ma (root s0)" using p(10)[of "root s0"] by simp
  then have mr: "map_of m1 (root s0) = Some n0" by (simp add: ma_def)
  have cr: "is_copy s0 (map_of m1) (root s0) (node_at s1 n0)"
    unfolding is_copy_def using p(5,6,7,8,9)
    by (simp add: sa_def n0_def node_at_clone_start_end acc_fold sidx_def split: option.splits)
  have ex: "\<exists>c. map_of m1 v = Some c \<and> is_copy s0 (map_of m1) v (node_at s1 c)"
    if v: "v \<in> live g" for v
  proof (cases "v = root s0")
    case True
    with mr cr show ?thesis by simp
  next
    case False
    have "below s0 g (root s0) v" using r(4) dep_nonneg[OF S v] by (simp add: below_def)
    from below_sub[OF S I r(1) v this] False have "sub s0 g (root s0) 0 v" by auto
    from p(11)[OF v this] show ?thesis by blast
  qed
  have dm: "v \<in> live g" if "map_of m1 v = Some c" for v c
    using entries_okD(1)[OF M1 that] .
  have bind: "Option.bind (kids_from s0 v 0 k) (map_of m1) = map_option mp (kids_from s0 v 0 k)"
    if v: "v \<in> live g" for v k
  proof (cases "kids_from s0 v 0 k")
    case None
    then show ?thesis by simp
  next
    case (Some x)
    from struct_kidD(1)[OF S v kids_from_SomeD(1)[OF Some]] ex obtain c where
      "map_of m1 x = Some c" by blast
    with Some show ?thesis by (simp add: mp_def)
  qed
  have link: "map_of m1 l = (if l \<in> live g then Some (mp l) else None)" for l
  proof (cases "map_of m1 l")
    case None
    with ex[of l] show ?thesis by auto
  next
    case (Some c)
    with dm[OF Some] show ?thesis by (simp add: mp_def)
  qed
  have main: "node_count s0 \<le> mp v \<and> mp v < node_count s2 \<and>
              start (node_at s2 (mp v)) = nstart s0 v \<and>
              endv (node_at s2 (mp v)) = nend s0 v \<and>
              suffixIndex (node_at s2 (mp v)) = sidx s0 v \<and>
              (\<forall>k. children (node_at s2 (mp v)) k = map_option mp (kids_from s0 v 0 k)) \<and>
              suffixLink (node_at s2 (mp v)) = map_option mp (slink s0 v)"
    if v: "v \<in> live g" for v
  proof -
    from ex[OF v] obtain c where c: "map_of m1 v = Some c"
      "is_copy s0 (map_of m1) v (node_at s1 c)" by blast
    have mv: "mp v = c" using c(1) by (simp add: mp_def)
    from c(1) have "(v, c) \<in> set m1" by (rule map_of_SomeD)
    with R have n2: "node_at s2 c = (case slink s0 v of None \<Rightarrow> node_at s1 c
            | Some l \<Rightarrow> (node_at s1 c)\<lparr>suffixLink := map_of m1 l\<rparr>)" by auto
    from entries_okD(2,3)[OF M1 c(1)] R have rg: "node_count s0 \<le> c" "c < node_count s2"
      by (simp_all add: n0_def)
    from c(2) have ic: "start (node_at s1 c) = nstart s0 v" "endv (node_at s1 c) = nend s0 v"
      "suffixLink (node_at s1 c) = None" "suffixIndex (node_at s1 c) = sidx s0 v"
      "\<And>k. children (node_at s1 c) k = map_option mp (kids_from s0 v 0 k)"
      using bind[OF v] by (simp_all add: is_copy_def)
    show ?thesis
    proof (cases "slink s0 v")
      case None
      with n2 have "node_at s2 c = node_at s1 c" by simp
      with rg ic None show ?thesis by (simp add: mv)
    next
      case (Some l)
      with K v have "l \<in> live g" unfolding links_live_def by blast
      then have "map_of m1 l = Some (mp l)" by (simp add: link)
      with n2 Some have "node_at s2 c = (node_at s1 c)\<lparr>suffixLink := Some (mp l)\<rparr>" by simp
      with rg ic Some show ?thesis by (simp add: mv)
    qed
  qed
  have "inj_on mp (live g)"
  proof (rule inj_onI)
    fix u v assume uv: "u \<in> live g" "v \<in> live g" "mp u = mp v"
    from ex[OF uv(1)] ex[OF uv(2)] uv(3) obtain c where
      "map_of m1 u = Some c" "map_of m1 v = Some c" by (auto simp: mp_def)
    then show "u = v" by (rule entries_ok_inj[OF M1])
  qed
  moreover have "cloneTreeWithSuffixLinks (root s0) s0 = Some (node_count s0, s2)"
    using run by (simp add: cloneTreeWithSuffixLinks_def cloneNodeHelper_def sa_def ma_def
        n0_def s2_def)
  moreover have "mp (root s0) = node_count s0" using mr by (simp add: mp_def n0_def)
  ultimately show ?thesis using R main by blast
qed

section \<open>Snapshots\<close>

text \<open>The nodes found from a node \<open>r\<close>: the tree when \<open>r\<close> is the root, a snapshot when
  \<open>r\<close> is the root of a snapshot.\<close>

definition tree_nodes :: "suffix_tree \<Rightarrow> nat \<Rightarrow> nat set" where
  "tree_nodes s r = {v. reach s r v}"

text \<open>
  The snapshot with the root \<open>r\<close> is a copy of the tree of \<open>s\<close> with everything
  remapped: \<open>f\<close> sends the nodes of the tree one to one onto the nodes of the snapshot,
  which are no nodes of the tree; the copy of a node has its \<open>start\<close>, \<open>end\<close> and
  \<open>suffixIndex\<close>, its children are the copies of the children, and its suffix link is
  the copy of the node the suffix link of the original leads to.
\<close>

definition remapped_copy :: "suffix_tree \<Rightarrow> nat \<Rightarrow> bool" where
  "remapped_copy s r \<longleftrightarrow>
     (\<exists>f. f (root s) = r \<and> inj_on f (tree_nodes s (root s)) \<and>
        f ` tree_nodes s (root s) = tree_nodes s r \<and>
        tree_nodes s r \<inter> tree_nodes s (root s) = {} \<and>
        (\<forall>v \<in> tree_nodes s (root s).
           start (node_at s (f v)) = start (node_at s v) \<and>
           endv (node_at s (f v)) = endv (node_at s v) \<and>
           suffixIndex (node_at s (f v)) = suffixIndex (node_at s v) \<and>
           (\<forall>k < 27. children (node_at s (f v)) (int k)
                       = map_option f (children (node_at s v) (int k))) \<and>
           suffixLink (node_at s (f v)) = map_option f (suffixLink (node_at s v))))"

text \<open>
  The snapshot with the root \<open>r\<close> shares no node with the tree, and every suffix link
  stored in it leads to a node of the same snapshot.
\<close>

definition closed_snapshot :: "suffix_tree \<Rightarrow> nat \<Rightarrow> bool" where
  "closed_snapshot s r \<longleftrightarrow>
     tree_nodes s r \<inter> tree_nodes s (root s) = {} \<and>
     (\<forall>v \<in> tree_nodes s r. \<forall>l. suffixLink (node_at s v) = Some l \<longrightarrow> l \<in> tree_nodes s r)"

definition snap_ok :: "suffix_tree \<Rightarrow> ghost \<Rightarrow> nat \<Rightarrow> bool" where
  "snap_ok s g r \<longleftrightarrow>
     (\<exists>A. r \<in> A \<and> A \<inter> live g = {} \<and>
        (\<forall>c \<in> A. c < node_count s \<and> reach s r c \<and>
           (\<forall>k x. children (node_at s c) k = Some x \<longrightarrow> x \<in> A) \<and>
           (\<forall>l. suffixLink (node_at s c) = Some l \<longrightarrow> l \<in> A)))"

lemma reach_keep:
  assumes "reach s r c" "r \<in> A" "\<forall>a \<in> A. node_at s' a = node_at s a"
    "\<forall>a \<in> A. \<forall>k x. children (node_at s a) k = Some x \<longrightarrow> x \<in> A"
  shows "reach s' r c \<and> c \<in> A"
  using assms(1)
proof (induction rule: reach.induct)
  case reach_self
  show ?case using assms(2) by (simp add: reach.reach_self)
next
  case (reach_child v k c)
  then have v: "reach s' r v" "v \<in> A" by simp_all
  with assms(3) reach_child(3) have "children (node_at s' v) (int k) = Some c" by simp
  from reach.reach_child[OF v(1) reach_child(2) this] assms(4) v(2) reach_child(3)
  show ?case by blast
qed

lemma snap_okE:
  assumes "snap_ok s g r"
  obtains A where "r \<in> A" "A \<inter> live g = {}" "\<And>c. c \<in> A \<Longrightarrow> c < node_count s"
    "\<And>c. c \<in> A \<Longrightarrow> reach s r c"
    "\<And>c k x. c \<in> A \<Longrightarrow> children (node_at s c) k = Some x \<Longrightarrow> x \<in> A"
    "\<And>c l. c \<in> A \<Longrightarrow> suffixLink (node_at s c) = Some l \<Longrightarrow> l \<in> A"
proof -
  from assms obtain A where a: "r \<in> A" "A \<inter> live g = {}"
    and b: "\<forall>c \<in> A. c < node_count s \<and> reach s r c \<and>
           (\<forall>k x. children (node_at s c) k = Some x \<longrightarrow> x \<in> A) \<and>
           (\<forall>l. suffixLink (node_at s c) = Some l \<longrightarrow> l \<in> A)"
    unfolding snap_ok_def by blast
  have 1: "c < node_count s" "reach s r c" if "c \<in> A" for c
    using bspec[OF b that] by blast+
  have 2: "x \<in> A" if "c \<in> A" "children (node_at s c) k = Some x" for c k x
    using bspec[OF b that(1)] that(2) by blast
  have 3: "l \<in> A" if "c \<in> A" "suffixLink (node_at s c) = Some l" for c l
    using bspec[OF b that(1)] that(2) by blast
  from a 1 2 3 show ?thesis by (rule that)
qed

lemma snap_okI:
  assumes "r \<in> A" "A \<inter> live g = {}" "\<And>c. c \<in> A \<Longrightarrow> c < node_count s"
    "\<And>c. c \<in> A \<Longrightarrow> reach s r c"
    "\<And>c k x. c \<in> A \<Longrightarrow> children (node_at s c) k = Some x \<Longrightarrow> x \<in> A"
    "\<And>c l. c \<in> A \<Longrightarrow> suffixLink (node_at s c) = Some l \<Longrightarrow> l \<in> A"
  shows "snap_ok s g r"
  unfolding snap_ok_def
proof (intro exI[of _ A] conjI ballI allI impI)
  show "r \<in> A" "A \<inter> live g = {}" by fact+
  fix c assume c: "c \<in> A"
  show "c < node_count s" "reach s r c" using assms(3,4)[OF c] .
  show "x \<in> A" if "children (node_at s c) k = Some x" for k x using assms(5)[OF c that] .
  show "l \<in> A" if "suffixLink (node_at s c) = Some l" for l using assms(6)[OF c that] .
qed

lemma snap_ok_grows:
  assumes "snap_ok s g r" "grows s g s' g'"
  shows "snap_ok s' g' r"
proof -
  from assms(1) obtain A where A: "r \<in> A" "A \<inter> live g = {}"
    "\<And>c. c \<in> A \<Longrightarrow> c < node_count s" "\<And>c. c \<in> A \<Longrightarrow> reach s r c"
    "\<And>c k x. c \<in> A \<Longrightarrow> children (node_at s c) k = Some x \<Longrightarrow> x \<in> A"
    "\<And>c l. c \<in> A \<Longrightarrow> suffixLink (node_at s c) = Some l \<Longrightarrow> l \<in> A"
    by (rule snap_okE) (rule that, assumption+)
  from assms(2) have G: "node_count s \<le> node_count s'"
    "live g' \<subseteq> live g \<union> {a. node_count s \<le> a}"
    "\<And>a. a < node_count s \<Longrightarrow> a \<notin> live g \<Longrightarrow> node_at s' a = node_at s a"
    by (simp_all add: grows_def)
  have nl: "a \<notin> live g" if "a \<in> A" for a using A(2) that by auto
  have same: "node_at s' a = node_at s a" if "a \<in> A" for a
    using G(3)[OF A(3)[OF that] nl[OF that]] .
  have cl: "\<forall>a \<in> A. \<forall>k x. children (node_at s a) k = Some x \<longrightarrow> x \<in> A"
    using A(5) by blast
  show ?thesis
  proof (rule snap_okI[of r A])
    show "r \<in> A" by fact
    show "A \<inter> live g' = {}"
    proof -
      have "a \<notin> live g'" if "a \<in> A" for a
        using A(3)[OF that] nl[OF that] G(2) by auto
      then show ?thesis by auto
    qed
    show "c < node_count s'" if "c \<in> A" for c using A(3)[OF that] G(1) by simp
    show "reach s' r c" if "c \<in> A" for c
      using reach_keep[OF A(4)[OF that] A(1) _ cl, of s'] same by simp
    show "x \<in> A" if "c \<in> A" "children (node_at s' c) k = Some x" for c k x
      using A(5)[OF that(1), of k x] that(2) same[OF that(1)] by simp
    show "l \<in> A" if "c \<in> A" "suffixLink (node_at s' c) = Some l" for c l
      using A(6)[OF that(1), of l] that(2) same[OF that(1)] by simp
  qed
qed

lemma ext_grows:
  assumes "ext s s'"
  shows "grows s g s' g"
  using assms by (simp add: ext_def grows_def)

lemma snap_ok_closed:
  assumes "snap_ok s g r" "tree_nodes s (root s) = live g"
  shows "closed_snapshot s r"
proof -
  from assms(1) obtain A where A: "r \<in> A" "A \<inter> live g = {}"
    "\<And>c. c \<in> A \<Longrightarrow> c < node_count s" "\<And>c. c \<in> A \<Longrightarrow> reach s r c"
    "\<And>c k x. c \<in> A \<Longrightarrow> children (node_at s c) k = Some x \<Longrightarrow> x \<in> A"
    "\<And>c l. c \<in> A \<Longrightarrow> suffixLink (node_at s c) = Some l \<Longrightarrow> l \<in> A"
    by (rule snap_okE) (rule that, assumption+)
  have cl: "\<forall>a \<in> A. \<forall>k x. children (node_at s a) k = Some x \<longrightarrow> x \<in> A"
    using A(5) by blast
  have "c \<in> A" if "reach s r c" for c
    using reach_keep[OF that A(1) _ cl, of s] by simp
  with A(4) have e: "tree_nodes s r = A" by (auto simp: tree_nodes_def)
  show ?thesis
    unfolding closed_snapshot_def e assms(2) using A(2,6) by blast
qed

lemma tree_nodes_live:
  assumes "struct_inv s g" "idx_ok (tree_text s)"
  shows "tree_nodes s (root s) = live g"
  using reach_iff_live[OF assms] by (auto simp: tree_nodes_def)

lemma kids_from_0: "k < 27 \<Longrightarrow> kids_from s v 0 (int k) = kid s v (int k)"
  by (auto simp: kids_from_def)

lemma cloneTree_copy:
  assumes S: "struct_inv s0 g" and I: "idx_ok (tree_text s0)" and K: "links_live s0 g"
  shows "\<exists>s'. cloneTreeWithSuffixLinks (root s0) s0 = Some (node_count s0, s') \<and>
           ext s0 s' \<and> remapped_copy s' (node_count s0) \<and> snap_ok s' g (node_count s0)"
proof -
  from cloneTree_total[OF S I K] obtain s' mp where
    c: "cloneTreeWithSuffixLinks (root s0) s0 = Some (node_count s0, s')" "ext s0 s'"
      "mp (root s0) = node_count s0" "inj_on mp (live g)"
    and m: "\<And>v. v \<in> live g \<Longrightarrow> node_count s0 \<le> mp v \<and> mp v < node_count s' \<and>
              start (node_at s' (mp v)) = nstart s0 v \<and>
              endv (node_at s' (mp v)) = nend s0 v \<and>
              suffixIndex (node_at s' (mp v)) = sidx s0 v \<and>
              (\<forall>k. children (node_at s' (mp v)) k = map_option mp (kids_from s0 v 0 k)) \<and>
              suffixLink (node_at s' (mp v)) = map_option mp (slink s0 v)"
    by blast
  define r where "r = node_count s0"
  note F = ext_frame[OF c(2) S]
  have S': "struct_inv s' g" by (rule same_tree_struct[OF frame_same[OF F] S])
  have t: "tree_text s' = tree_text s0" "root s' = root s0" using c(2) by (simp_all add: ext_def)
  have T: "tree_nodes s' (root s') = live g" using tree_nodes_live[OF S'] I t by simp
  note en = ext_node[OF c(2) S]
  have kid: "children (node_at s' (mp v)) k = Some x \<Longrightarrow> \<exists>y \<in> live g. x = mp y"
    if v: "v \<in> live g" for v k x
  proof -
    assume a: "children (node_at s' (mp v)) k = Some x"
    with m[OF v] obtain y where y: "kids_from s0 v 0 k = Some y" "x = mp y" by auto
    from struct_kidD(1)[OF S v kids_from_SomeD(1)[OF y(1)]] y(2) show ?thesis by auto
  qed
  have fwd: "reach s' r (mp v)" if "reach s' (root s') v" for v
    using that
  proof (induction rule: reach.induct)
    case reach_self
    show ?case using c(3) t by (simp add: r_def reach.reach_self)
  next
    case (reach_child v k x)
    from reach_child(1) T have v: "v \<in> live g" by (auto simp: tree_nodes_def)
    from reach_child(2) have k: "k < 27" by simp
    have "children (node_at s' (mp v)) (int k) = Some (mp x)"
      using m[OF v] reach_child(3) en[OF v] by (simp add: kids_from_0[OF k] acc_fold)
    from reach.reach_child[OF reach_child(4) reach_child(2) this] show ?case .
  qed
  have bwd: "c \<in> mp ` live g" if "reach s' r c" for c
    using that
  proof (induction rule: reach.induct)
    case reach_self
    have "r = mp (root s0)" using c(3) by (simp add: r_def)
    then show ?case using struct_rootD(1)[OF S] by (rule image_eqI)
  next
    case (reach_child v k x)
    then obtain u where u: "u \<in> live g" "v = mp u" by auto
    from reach_child(3) have "children (node_at s' (mp u)) (int k) = Some x" by (simp add: u(2))
    from kid[OF u(1) this] show ?case by auto
  qed
  have img: "mp ` live g = tree_nodes s' r"
    using fwd bwd T by (auto simp: tree_nodes_def)
  have "mp v \<notin> live g" if "v \<in> live g" for v
    using m[OF that] struct_fresh[OF S, of "mp v"] by auto
  then have dis: "mp ` live g \<inter> live g = {}" by auto
  have "remapped_copy s' r"
    unfolding remapped_copy_def T
  proof (intro exI[of _ mp] conjI ballI allI impI)
    show "mp (root s') = r" using c(3) t by (simp add: r_def)
    show "inj_on mp (live g)" by (rule c(4))
    show "mp ` live g = tree_nodes s' r" by (rule img)
    show "tree_nodes s' r \<inter> live g = {}" using dis img by simp
  next
    fix v assume v: "v \<in> live g"
    show "start (node_at s' (mp v)) = start (node_at s' v)"
      "endv (node_at s' (mp v)) = endv (node_at s' v)"
      "suffixIndex (node_at s' (mp v)) = suffixIndex (node_at s' v)"
      "suffixLink (node_at s' (mp v)) = map_option mp (suffixLink (node_at s' v))"
      using m[OF v] en[OF v] by (simp_all add: acc_fold sidx_def)
    fix k :: nat assume "k < 27"
    then show "children (node_at s' (mp v)) (int k)
        = map_option mp (children (node_at s' v) (int k))"
      using m[OF v] en[OF v] by (simp add: kids_from_0 acc_fold)
  qed
  moreover have "snap_ok s' g r"
  proof (rule snap_okI[of r "mp ` live g"])
    have "r = mp (root s0)" using c(3) by (simp add: r_def)
    then show "r \<in> mp ` live g" using struct_rootD(1)[OF S] by (rule image_eqI)
    show "mp ` live g \<inter> live g = {}" by (rule dis)
    show "c < node_count s'" if "c \<in> mp ` live g" for c using that m by auto
    show "reach s' r c" if "c \<in> mp ` live g" for c using that img by (auto simp: tree_nodes_def)
    show "x \<in> mp ` live g" if "c \<in> mp ` live g" "children (node_at s' c) k = Some x" for c k x
    proof -
      from that(1) obtain v where v: "v \<in> live g" "c = mp v" by auto
      from kid[OF v(1), of k x] that(2) v(2) show ?thesis by auto
    qed
    show "l \<in> mp ` live g" if "c \<in> mp ` live g" "suffixLink (node_at s' c) = Some l" for c l
    proof -
      from that(1) obtain v where v: "v \<in> live g" "c = mp v" by auto
      with m[OF v(1)] that(2) obtain l' where l': "slink s0 v = Some l'" "l = mp l'" by auto
      with K v(1) have "l' \<in> live g" by (auto simp: links_live_def)
      with l'(2) show ?thesis by auto
    qed
  qed
  ultimately show ?thesis using c(1,2) by (auto simp: r_def)
qed

section \<open>The steps of the version that remaps the links\<close>

lemma recordStep_remap_total:
  assumes S: "struct_inv s g" and I: "idx_ok (tree_text s)" and K: "links_live s g"
  shows "\<exists>s' sn. recordStep_remap p msg le (s, snaps) = Some (s', snaps @ [sn]) \<and>
           stepPos sn = p \<and> ext s s' \<and> remapped_copy s' (snapshotRoot sn) \<and>
           snap_ok s' g (snapshotRoot sn)"
proof -
  from cloneTree_copy[OF S I K] obtain s' where
    c: "cloneTreeWithSuffixLinks (root s) s = Some (node_count s, s')" "ext s s'"
      "remapped_copy s' (node_count s)" "snap_ok s' g (node_count s)" by blast
  define sn :: snapshot where "sn = \<lparr>message = msg, snapshotRoot = node_count s,
                    activeNodeStart = start (node_at s' (activeNode s')),
                    stepActiveEdge = activeEdge s',
                    stepActiveLength = activeLength s',
                    remainder = remainingSuffixCount s',
                    stepPos = p, leafEndSnapshot = le\<rparr>"
  have "recordStep_remap p msg le (s, snaps) = Some (s', snaps @ [sn])"
    using c(1) by (simp add: recordStep_remap_def sn_def)
  moreover have "snapshotRoot sn = node_count s" "stepPos sn = p" by (simp_all add: sn_def)
  ultimately show ?thesis using c(2,3,4) by auto
qed

lemma build_phases_remap_append:
  "build_phases_remap (xs @ ys) st =
     (case build_phases_remap xs st of
        None \<Rightarrow> None
      | Some (Inl e) \<Rightarrow> Some (Inl e)
      | Some (Inr st') \<Rightarrow> build_phases_remap ys st')"
  by (induction xs arbitrary: st) (auto split: option.splits sum.splits)

text \<open>
  \<open>recorded t k s snaps\<close>: the construction for the text \<open>t\<close> has done the phases 0
  to \<open>k\<close>, each followed by its \<open>recordStep\<close>, and \<open>s\<close> and \<open>snaps\<close> are the store
  and the steps at that moment.
\<close>

definition recorded :: "string \<Rightarrow> nat \<Rightarrow> suffix_tree \<Rightarrow> snapshot list \<Rightarrow> bool" where
  "recorded t k s snaps \<longleftrightarrow>
     build_phases_remap [0 ..< Suc k] (init_tree t, []) = Some (Inr (s, snaps))"

lemma phases_remap:
  assumes J: "inj_on charToIndex (set t)" and I: "idx_ok t"
  shows "m \<le> length t \<Longrightarrow>
    \<exists>s g snaps. build_phases_remap [0 ..< m] (init_tree t, []) = Some (Inr (s, snaps)) \<and>
      post_inv s g (int m - 1) \<and> links_live s g \<and> tree_text s = t \<and> length snaps = m \<and>
      (\<forall>k < m. stepPos (snaps ! k) = int k \<and> snap_ok s g (snapshotRoot (snaps ! k)) \<and>
         (\<exists>s'. recorded t k s' (take (Suc k) snaps) \<and>
               remapped_copy s' (snapshotRoot (snaps ! k)))) \<and>
      (fresh_at t (int m - 1) \<or> m = 0 \<longrightarrow> remainingSuffixCount s = 0)"
proof (induction m)
  case 0
  have "tree_text (init_tree t) = t" "remainingSuffixCount (init_tree t) = 0"
    by (simp_all add: init_tree_def)
  with init_post[OF J] init_links[of t] show ?case by auto
next
  case (Suc m)
  then have m: "m < length t" by simp
  from Suc obtain s g snaps where
    b: "build_phases_remap [0 ..< m] (init_tree t, []) = Some (Inr (s, snaps))"
    and P: "post_inv s g (int m - 1)" and K: "links_live s g" and t: "tree_text s = t"
    and l: "length snaps = m"
    and o: "\<And>k. k < m \<Longrightarrow> stepPos (snaps ! k) = int k \<and>
         snap_ok s g (snapshotRoot (snaps ! k)) \<and>
         (\<exists>s'. recorded t k s' (take (Suc k) snaps) \<and>
               remapped_copy s' (snapshotRoot (snaps ! k)))"
    by auto
  have "int m < int (length (tree_text s))" using m t by simp
  from extendSuffixTree_total[OF P this] K obtain s1 g1 where
    e: "extendSuffixTree (int m) s = Some (Inr s1)" "post_inv s1 g1 (int m)"
      "tree_text s1 = tree_text s" "grows s g s1 g1" "links_live s1 g1"
      "fresh_at (tree_text s) (int m) \<longrightarrow> remainingSuffixCount s1 = 0" by blast
  from e(2) have S1: "struct_inv s1 g1" by (simp add: post_inv_def)
  have I1: "idx_ok (tree_text s1)" using I e(3) t by simp
  from recordStep_remap_total[OF S1 I1 e(5)] obtain s2 sn where
    r: "recordStep_remap (int m) (charAt (tree_text s1) (int m), int m) (leafEnd s1) (s1, snaps)
          = Some (s2, snaps @ [sn])"
      "stepPos sn = int m" "ext s1 s2" "remapped_copy s2 (snapshotRoot sn)"
      "snap_ok s2 g1 (snapshotRoot sn)" by blast
  note F = ext_frame[OF r(3) S1]
  note f = frame_fields[OF F]
  have run: "build_phases_remap [0 ..< Suc m] (init_tree t, []) = Some (Inr (s2, snaps @ [sn]))"
    using b e(1) r(1) by (simp add: build_phases_remap_append)
  have P2: "post_inv s2 g1 (int (Suc m) - 1)" using frame_post[OF F e(2)] by simp
  have K2: "links_live s2 g1" by (rule frame_links[OF F e(5)])
  have each: "stepPos ((snaps @ [sn]) ! k) = int k \<and>
         snap_ok s2 g1 (snapshotRoot ((snaps @ [sn]) ! k)) \<and>
         (\<exists>s'. recorded t k s' (take (Suc k) (snaps @ [sn])) \<and>
               remapped_copy s' (snapshotRoot ((snaps @ [sn]) ! k)))"
    if k: "k < Suc m" for k
  proof (cases "k < m")
    case True
    then have n: "(snaps @ [sn]) ! k = snaps ! k" "take (Suc k) (snaps @ [sn]) = take (Suc k) snaps"
      using l by (simp_all add: nth_append)
    from o[OF True] have "snap_ok s g (snapshotRoot (snaps ! k))" by simp
    from snap_ok_grows[OF snap_ok_grows[OF this e(4)] ext_grows[OF r(3)]]
    have "snap_ok s2 g1 (snapshotRoot (snaps ! k))" .
    with o[OF True] show ?thesis unfolding n by simp
  next
    case False
    with k have km: "k = m" by simp
    then have n: "(snaps @ [sn]) ! k = sn" "take (Suc k) (snaps @ [sn]) = snaps @ [sn]"
      using l by (simp_all add: nth_append)
    have "recorded t k s2 (snaps @ [sn])" using run by (simp add: recorded_def km)
    with r(2,4,5) show ?thesis unfolding n by (auto simp: km)
  qed
  have "fresh_at t (int (Suc m) - 1) \<longrightarrow> remainingSuffixCount s2 = 0"
    using e(6) f(7) t by simp
  with run P2 K2 each f(1) e(3) t l show ?case by auto
qed

text \<open>The run of this version on the text \<open>AA$\<close>.\<close>

lemma run_AA_remap:
  "\<exists>s snaps. build_remap ''AA$'' = Some (Inr (s, snaps))
     \<and> root s = 0 \<and> suffixLink (node_at s 6) = Some 0
     \<and> map snapshotRoot snaps = [2, 4, 9] \<and> map stepPos snaps = [0, 1, 2]
     \<and> map leafEndSnapshot snaps = [0, 1, 2]
     \<and> children (node_at s 9) 0 = Some 10 \<and> suffixLink (node_at s 10) = Some 9"
proof -
  have "case build_remap ''AA$'' of
          Some (Inr (s, snaps)) \<Rightarrow>
            root s = 0 \<and> suffixLink (node_at s 6) = Some 0
            \<and> map snapshotRoot snaps = [2, 4, 9] \<and> map stepPos snaps = [0, 1, 2]
            \<and> map leafEndSnapshot snaps = [0, 1, 2]
            \<and> children (node_at s 9) 0 = Some 10 \<and> suffixLink (node_at s 10) = Some 9
        | _ \<Rightarrow> False"
    by (simp add: run_defs build_remap_def recordStep_remap_def cloneTreeWithSuffixLinks_def
        cloneNodeHelper_def cloneNodeHelper_from.simps clone_start_end_def)
  then show ?thesis
    by (auto split: option.splits sum.splits)
qed

section \<open>The snapshots of the two earlier copies\<close>

text \<open>
  In the two copies of \<open>suffixTree.js\<close> in \<open>part_001\<close> the snapshot is made by
  \<open>cloneNode\<close>, which copies the field \<open>suffixLink\<close> as it is: in the third snapshot
  of \<open>AA$\<close> the copy 10 of the internal node has the root 0 of the tree as its link,
  and 0 is not among the nodes 9 to 13 of the snapshot. These copies also record one
  step per position. The later copy, treated below, remaps the links.
\<close>

lemma cloneNode_keeps_links:
  "\<not> (\<forall>t s. build t = Some (Inr s) \<longrightarrow>
        length (steps s) = length t \<and>
        (\<forall>st \<in> set (steps s). \<forall>v l.
           reach s (snapshotRoot st) v \<longrightarrow> suffixLink (node_at s v) = Some l
             \<longrightarrow> reach s (snapshotRoot st) l))"
proof
  assume a: "\<forall>t s. build t = Some (Inr s) \<longrightarrow>
        length (steps s) = length t \<and>
        (\<forall>st \<in> set (steps s). \<forall>v l.
           reach s (snapshotRoot st) v \<longrightarrow> suffixLink (node_at s v) = Some l
             \<longrightarrow> reach s (snapshotRoot st) l)"
  from run_AA obtain s where b: "build ''AA$'' = Some (Inr s)"
    and n: "length (steps s) = 3" and r: "snapshotRoot (steps s ! 2) = 9"
    and c: "children (node_at s 9) 0 = Some 10" and l: "suffixLink (node_at s 10) = Some 0"
    and cl: "closed_under_children s [9, 10, 11, 12, 13]"
    by blast
  from n have m: "steps s ! 2 \<in> set (steps s)"
    by simp
  have "reach s 9 9"
    by (rule reach_self)
  from reach_child[OF this, of 0 10] c have "reach s 9 10"
    by simp
  with a b m r l have "reach s 9 0"
    by (metis (no_types, lifting))
  from reach_closed[OF this cl] show False
    by simp
qed

lemma one_step_per_position:
  "build t = Some (Inr s) \<Longrightarrow> length (steps s) = length t"
  by (auto simp: build_def buildSuffixTreeStepByStep_def init_tree_def setSuffixIndexByDFS_def
      split: option.splits sum.splits
      dest!: length_steps_build_phases steps_setSuffixIndex_from)


section \<open>The claims\<close>

text \<open>
  Claim C3. The claim: \<open>build\<close> fails with an InvalidInputError whenever the text has a
  symbol outside the alphabet or a terminal that is not the single last symbol, before any
  mutation. The constructor has no check of its input: on \<open>A$B\<close> it builds a tree.
  The first theorem refutes the claim as stated; the second is the behaviour of the
  code on that text: the construction completes and the tree answers queries about it.
\<close>

theorem build_rejects_malformed_counterexample:
  "\<not> (\<forall>t. \<not> valid_text t \<longrightarrow> (\<exists>e. build t = Some (Inl e)))"
proof
  assume a: "\<forall>t. \<not> valid_text t \<longrightarrow> (\<exists>e. build t = Some (Inl e))"
  have "\<not> valid_text ''A$B''"
    by (simp add: valid_text_def)
  with a obtain e where "build ''A$B'' = Some (Inl e)"
    by blast
  with run_AB show False
    by auto
qed

theorem build_accepts_malformed:
  "\<not> valid_text ''A$B'' \<and>
   (\<exists>s. build ''A$B'' = Some (Inr s) \<and> search s ''$B'' = Some True
        \<and> findAllMatches s ''B'' = Some [2])"
  using run_AB by (simp add: valid_text_def)

text \<open>
  Claim C5. The claim: \<open>shortestUniqueSubstring\<close> returns the shortest substring without
  the terminal that occurs at exactly one position. The second implementation (the
  traversal of the tree) takes every prefix of the path to a node with one leaf below it
  as a candidate, also the prefixes that end above a branching node: on \<open>AA$\<close> it
  returns \<open>A\<close>, which occurs at the positions 0 and 1, where the first implementation
  returns \<open>AA\<close>.
\<close>

theorem shortestUniqueSubstring_dfs_not_unique:
  "\<exists>s. build ''AA$'' = Some (Inr s)
     \<and> shortestUniqueSubstring_dfs s = Some ''A''
     \<and> occurrences ''AA$'' ''A'' = [0, 1]
     \<and> shortestUniqueSubstring s = Some ''AA''
     \<and> occurrences ''AA$'' ''AA'' = [0]"
  using run_AA by (auto simp: occurrences_def)

text \<open>
  Claim C7. There is a valid text on which the two implementations of
  \<open>shortestUniqueSubstring\<close> return different results.
\<close>

theorem shortestUniqueSubstring_variants_differ:
  "\<exists>t. valid_text t \<and>
     (\<exists>s. build t = Some (Inr s)
        \<and> shortestUniqueSubstring s \<noteq> shortestUniqueSubstring_dfs s)"
proof -
  have "valid_text ''AA$''"
    by (simp add: valid_text_def letter_def)
  with run_AA show ?thesis
    by (intro exI[of _ "''AA$''"]) auto
qed

text \<open>
  C9, for the copy of \<open>suffixTree.js\<close> whose \<open>recordStep\<close> calls
  \<open>cloneTreeWithSuffixLinks\<close>. For every valid text \<open>t\<close> the construction returns the
  tree and the list of the recorded steps, one for each position of the text, the
  \<open>k\<close>-th recorded for the position \<open>k\<close>. In the final store the nodes of each
  snapshot are no nodes of the tree, and every suffix link stored in a snapshot leads
  to a node of the same snapshot. And in the store as it was when phase \<open>k\<close> and its
  \<open>recordStep\<close> had just ended (\<open>recorded t k s' ...\<close>), the snapshot was a copy of
  the tree of that moment: its nodes are new nodes, one for each node of the tree,
  with the same \<open>start\<close>, \<open>end\<close> and \<open>suffixIndex\<close>, and with the children and the
  suffix link replaced by their copies.
\<close>

theorem snapshots_are_remapped_copies:
  assumes "valid_text t"
  shows "\<exists>s snaps. build_remap t = Some (Inr (s, snaps)) \<and> tree_text s = t \<and>
           length snaps = length t \<and>
           (\<forall>k < length t. stepPos (snaps ! k) = int k \<and>
              closed_snapshot s (snapshotRoot (snaps ! k)) \<and>
              (\<exists>s'. recorded t k s' (take (Suc k) snaps) \<and>
                    remapped_copy s' (snapshotRoot (snaps ! k))))"
proof -
  from phases_remap[OF valid_text_inj[OF assms] valid_text_idx_ok[OF assms], of "length t"]
  obtain s g snaps where
    b: "build_phases_remap [0 ..< length t] (init_tree t, []) = Some (Inr (s, snaps))"
    and P: "post_inv s g (int (length t) - 1)" and t: "tree_text s = t"
    and l: "length snaps = length t"
    and o: "\<And>k. k < length t \<Longrightarrow> stepPos (snaps ! k) = int k \<and>
         snap_ok s g (snapshotRoot (snaps ! k)) \<and>
         (\<exists>s'. recorded t k s' (take (Suc k) snaps) \<and>
               remapped_copy s' (snapshotRoot (snaps ! k)))"
    by auto
  from P have S: "struct_inv s g" by (simp add: post_inv_def)
  have I: "idx_ok (tree_text s)" using valid_text_idx_ok[OF assms] t by simp
  from setSuffixIndexByDFS_total[OF S I] obtain s' where
    d: "setSuffixIndexByDFS (root s) 0 s = Some s'" "frame s s' g"
      "node_count s' = node_count s" "\<And>a. a \<notin> live g \<Longrightarrow> node_at s' a = node_at s a"
    by blast
  note f = frame_fields[OF d(2)]
  have G: "grows s g s' g" using d(3,4) by (simp add: grows_def)
  have S': "struct_inv s' g" by (rule same_tree_struct[OF frame_same[OF d(2)] S])
  have T: "tree_nodes s' (root s') = live g" using tree_nodes_live[OF S'] I f(1) by simp
  have "closed_snapshot s' (snapshotRoot (snaps ! k))" if "k < length t" for k
  proof -
    from o[OF that] have "snap_ok s g (snapshotRoot (snaps ! k))" by simp
    from snap_ok_closed[OF snap_ok_grows[OF this G] T] show ?thesis .
  qed
  moreover have "build_remap t = Some (Inr (s', snaps))"
    using b d(1) by (simp add: build_remap_def)
  ultimately show ?thesis using o l f(1) t by auto
qed

text \<open>
  The text \<open>AA$\<close>: the tree has the root 0 and the internal node 6, whose suffix link is
  the root; the third snapshot has the root 9 and the copy 10 of the internal node, whose
  suffix link is 9, the copy of the root.
\<close>

theorem snapshots_are_remapped_copies_witness:
  "valid_text ''AA$'' \<and>
   (\<exists>s snaps. build_remap ''AA$'' = Some (Inr (s, snaps)) \<and> length snaps = 3 \<and>
      snapshotRoot (snaps ! 2) = 9 \<and> closed_snapshot s 9 \<and>
      suffixLink (node_at s 6) = Some 0 \<and>
      children (node_at s 9) 0 = Some 10 \<and> suffixLink (node_at s 10) = Some 9 \<and>
      (\<exists>s'. recorded ''AA$'' 2 s' snaps \<and> remapped_copy s' 9))"
proof -
  have v: "valid_text ''AA$''" by (simp add: valid_text_def letter_def)
  from snapshots_are_remapped_copies[OF v] obtain s snaps where
    b: "build_remap ''AA$'' = Some (Inr (s, snaps))" and l: "length snaps = length ''AA$''"
    and a: "\<forall>k < length ''AA$''. stepPos (snaps ! k) = int k \<and>
              closed_snapshot s (snapshotRoot (snaps ! k)) \<and>
              (\<exists>s'. recorded ''AA$'' k s' (take (Suc k) snaps) \<and>
                    remapped_copy s' (snapshotRoot (snaps ! k)))"
    by blast
  from l have l3: "length snaps = 3" by simp
  from run_AA_remap b have r: "map snapshotRoot snaps = [2, 4, 9]"
    "suffixLink (node_at s 6) = Some 0"
    "children (node_at s 9) 0 = Some 10" "suffixLink (node_at s 10) = Some 9" by auto
  have "snapshotRoot (snaps ! 2) = map snapshotRoot snaps ! 2" using l3 by simp
  with r(1) have r9: "snapshotRoot (snaps ! 2) = 9" by simp
  have "2 < length ''AA$''" by simp
  from a[rule_format, OF this] obtain s' where
    c: "closed_snapshot s (snapshotRoot (snaps ! 2))"
      "recorded ''AA$'' 2 s' (take (Suc 2) snaps)" "remapped_copy s' (snapshotRoot (snaps ! 2))"
    by blast
  from c(2) l3 have "recorded ''AA$'' 2 s' snaps" by simp
  with c(1,3) r9 have "closed_snapshot s 9" "\<exists>s'. recorded ''AA$'' 2 s' snaps \<and> remapped_copy s' 9"
    by auto
  with v b l3 r(2,3,4) r9 show ?thesis by blast
qed

text \<open>
  C4: for every valid text \<open>t\<close> (the string of the caller followed by the terminal, so
  \<open>length t\<close> is \<open>n + 1\<close>), \<open>build\<close> returns a tree in which the leaves found from
  the root are as many as the characters of \<open>t\<close>, their \<open>suffixIndex\<close> values are
  pairwise distinct and are exactly the numbers from 0 to \<open>length t - 1\<close>, and every
  node other than the root that is not a leaf has at least two children.
\<close>

theorem leaves_of_built_tree:
  assumes "valid_text t"
  shows "\<exists>s. build t = Some (Inr s) \<and> card (leaves s) = length t \<and>
           inj_on (sidx s) (leaves s) \<and> sidx s ` leaves s = {0 ..< int (length t)} \<and>
           (\<forall>v. reach s (root s) v \<and> v \<noteq> root s \<and> v \<notin> leaves s \<longrightarrow> 2 \<le> childCount s v)"
proof -
  from build_total[OF assms] obtain s g where
    b: "build t = Some (Inr s)" "tree_ok s g" "tree_text s = t" by blast
  note B = leaves_bij[OF b(2), unfolded b(3)]
  from bij_betw_same_card[OF B] have c: "card (leaves s) = length t" by simp
  from B have i: "inj_on (sidx s) (leaves s)" "sidx s ` leaves s = {0 ..< int (length t)}"
    by (simp_all add: bij_betw_def)
  have "\<forall>v. reach s (root s) v \<and> v \<noteq> root s \<and> v \<notin> leaves s \<longrightarrow> 2 \<le> childCount s v"
    using internal_two[OF b(2)] by blast
  with b(1) c i show ?thesis by blast
qed

theorem leaves_of_built_tree_witness:
  "valid_text ''AA$'' \<and>
   (\<exists>s. build ''AA$'' = Some (Inr s) \<and> card (leaves s) = 3 \<and>
        sidx s ` leaves s = {0 ..< 3})"
proof -
  have v: "valid_text ''AA$''" by (simp add: valid_text_def letter_def)
  from leaves_of_built_tree[OF v] v show ?thesis by auto
qed

text \<open>
  C8: for every valid text the construction terminates. In the model a loop that runs
  forever has the value \<open>None\<close>, so \<open>build t = Some (Inr s)\<close> says that the \<open>while\<close>
  loop of every phase (with its walk-down retries and its rule 3 exit), every snapshot
  and the final traversal came to an end; \<open>build\<close> is a total function on the valid
  texts and returns a tree for the text.
\<close>

theorem build_terminates:
  assumes "valid_text t"
  shows "\<exists>s. build t = Some (Inr s) \<and> tree_text s = t"
  using build_total[OF assms] by blast

theorem build_terminates_witness:
  "valid_text ''BANANA$'' \<and> (\<exists>s. build ''BANANA$'' = Some (Inr s) \<and> tree_text s = ''BANANA$'')"
proof -
  have v: "valid_text ''BANANA$''" by (simp add: valid_text_def letter_def)
  from build_terminates[OF v] v show ?thesis by simp
qed

end
